theory Spec2Isabelle
  imports Main "HOL-Library.Word" "HOL-Library.List_Lexorder"
begin

unbundle bit_operations_syntax

section \<open>Common types\<close>

text \<open>Bytes are 8-bit words, \<open>size_t\<close> and \<open>uint64_t\<close> are 64-bit words (the code is
  Linux/64-bit only, see the remark on top of sstable.h), \<open>int32_t\<close> is a 32-bit word
  read with \<open>sint\<close>.\<close>

type_synonym byte = "8 word"
type_synonym bytes = "byte list"
type_synonym size_t = "64 word"
type_synonym int32_t = "32 word"

text \<open>Everything that ends a call abnormally: a C++ exception (\<open>std::out_of_range\<close> of
  \<open>array::at\<close>), a failed \<open>assert\<close> (asserts are compiled in), or undefined behaviour
  (integer division by zero, an access outside an array, a vector or the mapped file).\<close>

datatype error =
    Out_of_range
  | Division_by_zero
  | Out_of_bounds
  | Null_pointer
  | Assertion_failed

section \<open>Bloom filters (bloom\_filters.h)\<close>

subsection \<open>static\_filter::memory\<close>

record memory =
  slices :: size_t
  bps :: size_t
  bit_count :: size_t
  bits :: bytes

definition memory_init :: "size_t \<Rightarrow> size_t \<Rightarrow> memory" where
  "memory_init slice_count bits_per_slice =
     (let bc = slice_count * bits_per_slice;
          byte_count = bc div 8 + (if bc mod 8 \<noteq> 0 then 1 else 0)
      in \<lparr>slices = slice_count, bps = bits_per_slice, bit_count = bc,
          bits = replicate (unat byte_count) 0\<rparr>)"

definition byte_idx :: "size_t \<Rightarrow> size_t" where
  "byte_idx b = b div 8"

definition sub_bit :: "size_t \<Rightarrow> byte" where
  "sub_bit b = push_bit (unat (b mod 8)) 1"

text \<open>\<open>bits[byte_idx(bit_idx)]\<close> is an unchecked \<open>vector::operator[]\<close>: outside the vector
  it is undefined behaviour, which the model reports as \<open>Out_of_bounds\<close>.\<close>

definition memory_set :: "memory \<Rightarrow> size_t \<Rightarrow> error + memory" where
  "memory_set m bit_idx =
     (let j = unat (byte_idx bit_idx)
      in if j < length (bits m)
         then Inr (m\<lparr>bits := (bits m)[j := (bits m ! j) OR sub_bit bit_idx]\<rparr>)
         else Inl Out_of_bounds)"

definition memory_check :: "memory \<Rightarrow> size_t \<Rightarrow> error + bool" where
  "memory_check m bit_idx =
     (let j = unat (byte_idx bit_idx)
      in if j < length (bits m)
         then Inr (((bits m ! j) AND sub_bit bit_idx) \<noteq> 0)
         else Inl Out_of_bounds)"

definition memory_check_set :: "memory \<Rightarrow> size_t \<Rightarrow> error + (bool \<times> memory)" where
  "memory_check_set m bit_idx =
     (case memory_check m bit_idx of
        Inl e \<Rightarrow> Inl e
      | Inr old \<Rightarrow> (case memory_set m bit_idx of
                     Inl e \<Rightarrow> Inl e
                   | Inr m' \<Rightarrow> Inr (old, m')))"

subsection \<open>static\_filter\<close>

text \<open>The target error rate is a \<open>double\<close>; the model keeps its type \<open>'r\<close> abstract.
  \<open>hash_seeds\<close> is a \<open>std::array<uint64_t, 32>\<close>, a function on indices whose bound is
  enforced by \<open>at\<close>.\<close>

record 'r parameters =
  target_error_rate :: 'r
  capacity :: size_t
  hash_seeds :: "nat \<Rightarrow> 64 word"

definition MAX_HASH_COUNT :: nat where
  "MAX_HASH_COUNT = 32"

definition seeds_at :: "('r, 'x) parameters_scheme \<Rightarrow> size_t \<Rightarrow> error + 64 word" where
  "seeds_at p i = (if unat i < MAX_HASH_COUNT then Inr (hash_seeds p (unat i)) else Inl Out_of_range)"

text \<open>What the filters use and this repository does not define exactly: \<open>XXHash64::hash\<close>
  (xxhash64.h is not part of the sources), and the floating-point computations
  \<open>hash_count\<close>, \<open>slice_bits\<close> and the product of two rates. They are parameters of the
  model.\<close>

record 'r env =
  xxhash64 :: "bytes \<Rightarrow> 64 word \<Rightarrow> 64 word"
  hash_count :: "'r \<Rightarrow> size_t"
  slice_bits :: "'r \<Rightarrow> size_t \<Rightarrow> size_t"
  rate_times :: "'r \<Rightarrow> 'r \<Rightarrow> 'r"

record 'r static_filter =
  params :: "'r parameters"
  mem :: memory
  element_count :: size_t

definition static_filter_new :: "'r env \<Rightarrow> 'r parameters \<Rightarrow> 'r static_filter" where
  "static_filter_new E p =
     \<lparr>params = p,
      mem = memory_init (hash_count E (target_error_rate p))
                        (slice_bits E (target_error_rate p) (capacity p)),
      element_count = 0\<rparr>"

definition good :: "'r static_filter \<Rightarrow> bool" where
  "good f = (element_count f < capacity (params f))"

text \<open>\<open>bool count() const { return this->element_count; }\<close>: the conversion of a
  \<open>size_t\<close> to \<open>bool\<close>.\<close>

definition static_count :: "'r static_filter \<Rightarrow> bool" where
  "static_count f = (element_count f \<noteq> 0)"

definition hash_i :: "'r env \<Rightarrow> 'r static_filter \<Rightarrow> size_t \<Rightarrow> bytes \<Rightarrow> error + size_t" where
  "hash_i E f i d =
     (case seeds_at (params f) i of
        Inl e \<Rightarrow> Inl e
      | Inr seed \<Rightarrow>
          if bps (mem f) = 0 then Inl Division_by_zero
          else Inr ((xxhash64 E d seed mod bps (mem f)) + (i * bps (mem f))))"

text \<open>The loops \<open>for (size_t i = 0; i < mem.slices; i++)\<close> run over the indices
  \<open>[0..<unat slices]\<close>.\<close>

fun might_contain_loop :: "'r env \<Rightarrow> 'r static_filter \<Rightarrow> bytes \<Rightarrow> nat list \<Rightarrow> error + bool" where
  "might_contain_loop E f d [] = Inr True"
| "might_contain_loop E f d (i # is) =
     (case hash_i E f (of_nat i) d of
        Inl e \<Rightarrow> Inl e
      | Inr b \<Rightarrow> (case memory_check (mem f) b of
                    Inl e \<Rightarrow> Inl e
                  | Inr c \<Rightarrow> if \<not> c then Inr False else might_contain_loop E f d is))"

definition might_contain :: "'r env \<Rightarrow> 'r static_filter \<Rightarrow> bytes \<Rightarrow> error + bool" where
  "might_contain E f d = might_contain_loop E f d [0..<unat (slices (mem f))]"

text \<open>A mutating member function returns the object as it is left, together with the
  returned value or the error that ended the call: an exception leaves the bits that were
  already set.\<close>

fun static_insert_loop :: "'r env \<Rightarrow> 'r static_filter \<Rightarrow> bytes \<Rightarrow> bool \<Rightarrow> nat list
    \<Rightarrow> 'r static_filter \<times> (error + bool)" where
  "static_insert_loop E f d all_set [] = (f, Inr all_set)"
| "static_insert_loop E f d all_set (i # is) =
     (case hash_i E f (of_nat i) d of
        Inl e \<Rightarrow> (f, Inl e)
      | Inr b \<Rightarrow> (case memory_check_set (mem f) b of
                    Inl e \<Rightarrow> (f, Inl e)
                  | Inr (old, m') \<Rightarrow> static_insert_loop E (f\<lparr>mem := m'\<rparr>) d (old \<and> all_set) is))"

definition static_insert :: "'r env \<Rightarrow> 'r static_filter \<Rightarrow> bytes \<Rightarrow> 'r static_filter \<times> (error + bool)" where
  "static_insert E f d =
     (case static_insert_loop E f d True [0..<unat (slices (mem f))] of
        (f', Inl e) \<Rightarrow> (f', Inl e)
      | (f', Inr all_set) \<Rightarrow>
          if \<not> all_set then (f'\<lparr>element_count := element_count f' + 1\<rparr>, Inr all_set)
          else (f', Inr all_set))"

fun insert_new_loop :: "'r env \<Rightarrow> 'r static_filter \<Rightarrow> bytes \<Rightarrow> nat list
    \<Rightarrow> 'r static_filter \<times> (error + unit)" where
  "insert_new_loop E f d [] = (f, Inr ())"
| "insert_new_loop E f d (i # is) =
     (case hash_i E f (of_nat i) d of
        Inl e \<Rightarrow> (f, Inl e)
      | Inr b \<Rightarrow> (case memory_set (mem f) b of
                    Inl e \<Rightarrow> (f, Inl e)
                  | Inr m' \<Rightarrow> insert_new_loop E (f\<lparr>mem := m'\<rparr>) d is))"

definition insert_new :: "'r env \<Rightarrow> 'r static_filter \<Rightarrow> bytes \<Rightarrow> 'r static_filter \<times> (error + unit)" where
  "insert_new E f d =
     insert_new_loop E (f\<lparr>element_count := element_count f + 1\<rparr>) d [0..<unat (slices (mem f))]"

subsection \<open>scalable\_filter\<close>

record 'r scalable_parameters = "'r parameters" +
  tightening_ratio :: 'r
  scaling_factor :: size_t

record 'r scalable_filter =
  sparams :: "'r scalable_parameters"
  filters :: "'r static_filter list"

definition scalable_filter_new :: "'r env \<Rightarrow> 'r scalable_parameters \<Rightarrow> 'r scalable_filter" where
  "scalable_filter_new E p =
     \<lparr>sparams = p, filters = [static_filter_new E (parameters.truncate p)]\<rparr>"

definition scalable_capacity :: "'r scalable_filter \<Rightarrow> size_t" where
  "scalable_capacity s = fold (\<lambda>f c. c + capacity (params f)) (filters s) 0"

definition scalable_count :: "'r scalable_filter \<Rightarrow> size_t" where
  "scalable_count s = fold (\<lambda>f c. c + (if static_count f then 1 else 0)) (filters s) 0"

fun scalable_might_contain_loop :: "'r env \<Rightarrow> 'r static_filter list \<Rightarrow> bytes \<Rightarrow> error + bool" where
  "scalable_might_contain_loop E [] d = Inr False"
| "scalable_might_contain_loop E (f # fs) d =
     (case might_contain E f d of
        Inl e \<Rightarrow> Inl e
      | Inr c \<Rightarrow> if c then Inr True else scalable_might_contain_loop E fs d)"

definition scalable_might_contain :: "'r env \<Rightarrow> 'r scalable_filter \<Rightarrow> bytes \<Rightarrow> error + bool" where
  "scalable_might_contain E s d = scalable_might_contain_loop E (filters s) d"

text \<open>\<open>filters.back()\<close> of an empty vector would be undefined behaviour; the constructor
  puts one filter in and none is ever removed.\<close>

definition insert_back :: "'r env \<Rightarrow> 'r scalable_filter \<Rightarrow> bytes \<Rightarrow> 'r scalable_filter \<times> (error + bool)" where
  "insert_back E s d =
     (if filters s = [] then (s, Inl Out_of_bounds)
      else (case insert_new E (last (filters s)) d of
              (f', Inl e) \<Rightarrow> (s\<lparr>filters := butlast (filters s) @ [f']\<rparr>, Inl e)
            | (f', Inr u) \<Rightarrow> (s\<lparr>filters := butlast (filters s) @ [f']\<rparr>, Inr False)))"

definition scalable_insert :: "'r env \<Rightarrow> 'r scalable_filter \<Rightarrow> bytes \<Rightarrow> 'r scalable_filter \<times> (error + bool)" where
  "scalable_insert E s d =
     (case scalable_might_contain E s d of
        Inl e \<Rightarrow> (s, Inl e)
      | Inr True \<Rightarrow> (s, Inr True)
      | Inr False \<Rightarrow>
          if filters s = [] then (s, Inl Out_of_bounds)
          else if \<not> good (last (filters s)) then
            (let old = params (last (filters s));
                 new_params = old\<lparr>capacity := capacity old * scaling_factor (sparams s),
                                  target_error_rate :=
                                    rate_times E (target_error_rate old) (tightening_ratio (sparams s))\<rparr>
             in insert_back E (s\<lparr>filters := filters s @ [static_filter_new E new_params]\<rparr>) d)
          else insert_back E s d)"

text \<open>Sequences of mutating calls, each with any outcome.\<close>

datatype static_op = Insert bytes | Insert_new bytes

fun static_step :: "'r env \<Rightarrow> 'r static_filter \<Rightarrow> static_op \<Rightarrow> 'r static_filter" where
  "static_step E f (Insert d) = fst (static_insert E f d)"
| "static_step E f (Insert_new d) = fst (insert_new E f d)"

definition static_run :: "'r env \<Rightarrow> 'r static_filter \<Rightarrow> static_op list \<Rightarrow> 'r static_filter" where
  "static_run E f ops = foldl (static_step E) f ops"

definition scalable_run :: "'r env \<Rightarrow> 'r scalable_filter \<Rightarrow> bytes list \<Rightarrow> 'r scalable_filter" where
  "scalable_run E s ds = foldl (\<lambda>s d. fst (scalable_insert E s d)) s ds"

text \<open>\<open>extends f f'\<close>: \<open>f'\<close> has the parameters and the shape of \<open>f\<close>, and every bit
  that tests as set in \<open>f\<close> tests as set in \<open>f'\<close>.\<close>

definition extends :: "'r static_filter \<Rightarrow> 'r static_filter \<Rightarrow> bool" where
  "extends f f' \<longleftrightarrow>
     params f' = params f \<and> slices (mem f') = slices (mem f) \<and> bps (mem f') = bps (mem f) \<and>
     (\<forall>b. memory_check (mem f) b = Inr True \<longrightarrow> memory_check (mem f') b = Inr True)"


text \<open>A concrete environment and concrete parameters, for evaluating the filters.\<close>

definition demo_env :: "nat env" where
  "demo_env = \<lparr>xxhash64 = (\<lambda>d seed. seed + of_nat (length d) + (if d = [] then 0 else ucast (hd d))),
                hash_count = (\<lambda>r. of_nat r),
                slice_bits = (\<lambda>r c. 4 * c),
                rate_times = (\<lambda>a b. a + b)\<rparr>"

definition demo_params :: "nat scalable_parameters" where
  "demo_params = \<lparr>target_error_rate = 2, capacity = 2, hash_seeds = (\<lambda>i. 7 * of_nat i),
                   tightening_ratio = 1, scaling_factor = 2\<rparr>"

section \<open>Memtable (memtable.h)\<close>

text \<open>\<open>std::string_view::compare\<close>: negative, zero or positive as the first string is
  before, equal to or after the second, bytes compared as unsigned.\<close>

fun sv_compare :: "bytes \<Rightarrow> bytes \<Rightarrow> int" where
  "sv_compare [] [] = 0"
| "sv_compare [] (y # ys) = - 1"
| "sv_compare (x # xs) [] = 1"
| "sv_compare (x # xs) (y # ys) =
     (if x < y then - 1 else if y < x then 1 else sv_compare xs ys)"

definition MAX_TABLE_LEVELS :: nat where
  "MAX_TABLE_LEVELS = 16"

record config_opts =
  writes_before_lock :: size_t
  data_limit :: size_t
  total_data_limit :: size_t

text \<open>\<open>struct record { void * data; size_t size; }\<close>: \<open>None\<close> is the null pointer,
  \<open>Some v\<close> a buffer from \<open>malloc\<close> holding the bytes \<open>v\<close>.\<close>

record skip_record =
  rdata :: "bytes option"
  rsize :: size_t

text \<open>A node pointer is an index into the list of nodes of the table; index 0 is the
  member \<open>head\<close>, \<open>None\<close> is \<open>nullptr\<close>. \<open>nxt\<close> is the array \<open>next\<close> of
  \<open>MAX_TABLE_LEVELS\<close> links.\<close>

record node =
  key :: bytes
  record_idx :: int32_t
  nxt :: "nat option list"

definition iterate :: "node \<Rightarrow> nat \<Rightarrow> nat option" where
  "iterate n level = nxt n ! level"

definition older :: "node \<Rightarrow> int32_t \<Rightarrow> bool" where
  "older n idx = (sint (record_idx n) < sint idx)"

definition newer :: "node \<Rightarrow> int32_t \<Rightarrow> bool" where
  "newer n idx = (sint (record_idx n) > sint idx)"

definition link :: "node \<Rightarrow> nat \<Rightarrow> nat option \<Rightarrow> node" where
  "link n level m = n\<lparr>nxt := (nxt n)[level := m]\<rparr>"

definition CE_link :: "node \<Rightarrow> nat \<Rightarrow> nat option \<Rightarrow> nat option \<Rightarrow> bool \<times> node" where
  "CE_link n level expected m =
     (if nxt n ! level = expected then (True, n\<lparr>nxt := (nxt n)[level := m]\<rparr>) else (False, n))"

record skiptable =
  config :: config_opts
  records :: "skip_record list"
  total_data_size :: size_t
  data_size :: size_t
  is_locked :: bool
  next_record :: int32_t
  nodes :: "node list"

definition skiptable_new :: "config_opts \<Rightarrow> skiptable" where
  "skiptable_new opts =
     \<lparr>config = opts,
      records = replicate (unat (writes_before_lock opts)) \<lparr>rdata = None, rsize = 0\<rparr>,
      total_data_size = 0, data_size = 0, is_locked = False, next_record = 0,
      nodes = [\<lparr>key = [], record_idx = - 1, nxt = replicate MAX_TABLE_LEVELS None\<rparr>]\<rparr>"

text \<open>\<open>lock\<close> returns the previous flag (\<open>exchange\<close>).\<close>

definition lock :: "skiptable \<Rightarrow> bool \<times> skiptable" where
  "lock t = (is_locked t, t\<lparr>is_locked := True\<rparr>)"

text \<open>In \<open>next_record >= config.writes_before_lock\<close> the \<open>int32_t\<close> is converted to
  \<open>size_t\<close>, with sign extension.\<close>

definition locked :: "skiptable \<Rightarrow> bool" where
  "locked t \<longleftrightarrow>
     total_data_size t \<ge> total_data_limit (config t)
     \<or> (scast (next_record t) :: size_t) \<ge> writes_before_lock (config t)
     \<or> data_size t \<ge> data_limit (config t)
     \<or> is_locked t"

definition table_empty :: "skiptable \<Rightarrow> bool" where
  "table_empty t \<longleftrightarrow> data_size t = 0"

definition table_first :: "skiptable \<Rightarrow> nat \<Rightarrow> nat option" where
  "table_first t level = iterate (nodes t ! 0) level"

text \<open>The inner \<open>while (true)\<close> of \<open>find\<close> on level \<open>i\<close>, from node \<open>n\<close>: \<open>Inl n2\<close> is
  \<open>return n2\<close>, \<open>Inr n\<close> is \<open>break\<close> with the current node. A walk that never ends has no
  value.\<close>

partial_function (option) find_level :: "node list \<Rightarrow> bytes \<Rightarrow> nat \<Rightarrow> nat \<Rightarrow> (nat + nat) option" where
  "find_level h k i n =
     (case iterate (h ! n) i of
        None \<Rightarrow> Some (Inr n)
      | Some n2 \<Rightarrow>
          (let comp = sv_compare k (key (h ! n2))
           in if comp < 0 then Some (Inr n)
              else if comp = 0 then Some (Inl n2)
              else find_level h k i n2))"

declare find_level.simps [code]

text \<open>The outer \<open>for (int32_t i = MAX_TABLE_LEVELS - 1; i >= 0; i--)\<close>; the counter of the
  model is \<open>i + 1\<close>.\<close>

fun find_levels :: "node list \<Rightarrow> bytes \<Rightarrow> nat \<Rightarrow> nat \<Rightarrow> nat option option" where
  "find_levels h k 0 n = Some None"
| "find_levels h k (Suc i) n =
     (case find_level h k i n of
        None \<Rightarrow> None
      | Some (Inl n2) \<Rightarrow> Some (Some n2)
      | Some (Inr n') \<Rightarrow> find_levels h k i n')"

definition table_find :: "skiptable \<Rightarrow> bytes \<Rightarrow> nat option option" where
  "table_find t k = find_levels (nodes t) k MAX_TABLE_LEVELS 0"

text \<open>\<open>get(node const *)\<close> returns a pointer to a slot of \<open>records\<close>; the model returns the
  slot.\<close>

definition get_node :: "skiptable \<Rightarrow> nat option \<Rightarrow> skip_record option" where
  "get_node t p =
     (case p of
        None \<Rightarrow> None
      | Some n \<Rightarrow>
          (let idx = record_idx (nodes t ! n)
           in if sint idx < 0 \<or> sint idx \<ge> sint (next_record t) then None
              else Some (records t ! nat (sint idx))))"

definition get_key :: "skiptable \<Rightarrow> bytes \<Rightarrow> skip_record option option" where
  "get_key t k = map_option (get_node t) (table_find t k)"

text \<open>The level of a new node. \<open>draw j\<close> is the \<open>j\<close>-th number that \<open>dist(*gen)\<close> yields in
  this call. The loop condition is \<open>level < MAX_TABLE_LEVELS\<close>, so the level ranges over
  0..16.\<close>

function random_level :: "(nat \<Rightarrow> int) \<Rightarrow> nat \<Rightarrow> nat" where
  "random_level draw level =
     (if level < MAX_TABLE_LEVELS
      then (if draw level mod 2 \<noteq> 0 then random_level draw (level + 1) else level)
      else level)"
  by pat_completeness auto
termination
  by (relation "measure (\<lambda>(draw, level). MAX_TABLE_LEVELS - level)") auto

declare random_level.simps [simp del]

text \<open>The inner \<open>while (true)\<close> of \<open>insert\<close> on level \<open>i\<close>, from node \<open>n\<close>.\<close>

datatype scan_result =
    Stop nat "nat option"
  | Newer nat
  | Older nat
  | Same_index

partial_function (option) scan_level ::
    "node list \<Rightarrow> bytes \<Rightarrow> int32_t \<Rightarrow> nat \<Rightarrow> nat \<Rightarrow> scan_result option" where
  "scan_level h k idx i n =
     (case iterate (h ! n) i of
        None \<Rightarrow> Some (Stop n None)
      | Some n2 \<Rightarrow>
          (let comp = sv_compare k (key (h ! n2))
           in if comp < 0 then Some (Stop n (Some n2))
              else if comp = 0 \<and> newer (h ! n2) idx then Some (Newer n2)
              else if comp = 0 \<and> older (h ! n2) idx then Some (Older n2)
              else if comp = 0 then Some Same_index
              else scan_level h k idx i n2))"

declare scan_level.simps [code]

text \<open>The \<open>for (int32_t i = level; i >= 0; i--)\<close> around it, filling \<open>updates\<close> and
  \<open>update_nexts\<close>. Level 16 is outside the arrays \<open>next\<close>, \<open>updates\<close> and
  \<open>update_nexts\<close>: undefined behaviour.\<close>

datatype search_result =
    is_Links: Links (new_updates: "nat option list") (new_update_nexts: "nat option list")
  | is_Found_newer: Found_newer (found: nat)
  | is_Found_older: Found_older (found: nat)

fun search :: "node list \<Rightarrow> bytes \<Rightarrow> int32_t \<Rightarrow> nat \<Rightarrow> nat \<Rightarrow> nat option list \<Rightarrow> nat option list
    \<Rightarrow> (error + search_result) option" where
  "search h k idx 0 n updates update_nexts = Some (Inr (Links updates update_nexts))"
| "search h k idx (Suc i) n updates update_nexts =
     (if i \<ge> MAX_TABLE_LEVELS then Some (Inl Out_of_bounds)
      else (case scan_level h k idx i n of
              None \<Rightarrow> None
            | Some (Stop p s) \<Rightarrow> search h k idx i p (updates[i := Some p]) (update_nexts[i := s])
            | Some (Newer n2) \<Rightarrow> Some (Inr (Found_newer n2))
            | Some (Older n2) \<Rightarrow> Some (Inr (Found_older n2))
            | Some Same_index \<Rightarrow> Some (Inl Assertion_failed)))"

text \<open>The second \<open>for\<close> loop: link the new node \<open>a\<close> on the levels \<open>is\<close> (from \<open>level\<close>
  down to 0). \<open>False\<close> is the \<open>goto insert_loop\<close> after a failed compare-exchange.\<close>

fun splice :: "node list \<Rightarrow> nat \<Rightarrow> nat option list \<Rightarrow> nat option list \<Rightarrow> nat list
    \<Rightarrow> error + (bool \<times> node list)" where
  "splice h a updates update_nexts [] = Inr (True, h)"
| "splice h a updates update_nexts (i # is) =
     (let h1 = h[a := link (h ! a) i (update_nexts ! i)]
      in case updates ! i of
           None \<Rightarrow> Inl Null_pointer
         | Some u \<Rightarrow>
             (case CE_link (h1 ! u) i (update_nexts ! i) (Some a) of
                (False, n') \<Rightarrow> Inr (False, h1)
              | (True, n') \<Rightarrow> splice (h1[u := n']) a updates update_nexts is))"

datatype insert_result =
    Spliced "node list"
  | Existing_newer nat "node list"
  | Existing_older nat "node list"

partial_function (option) insert_loop ::
    "node list \<Rightarrow> bytes \<Rightarrow> int32_t \<Rightarrow> nat \<Rightarrow> nat \<Rightarrow> nat option list \<Rightarrow> nat option list
    \<Rightarrow> (error + insert_result) option" where
  "insert_loop h k idx level a updates update_nexts =
     (case search h k idx (Suc level) 0 updates update_nexts of
        None \<Rightarrow> None
      | Some (Inl e) \<Rightarrow> Some (Inl e)
      | Some (Inr r) \<Rightarrow>
          if is_Links r then
            (case splice h a (new_updates r) (new_update_nexts r) (rev [0..<Suc level]) of
               Inl e \<Rightarrow> Some (Inl e)
             | Inr (ok, h') \<Rightarrow>
                 if ok then Some (Inr (Spliced h'))
                 else insert_loop h' k idx level a (new_updates r) (new_update_nexts r))
          else if is_Found_newer r then Some (Inr (Existing_newer (found r) h))
          else Some (Inr (Existing_older (found r) h)))"

declare insert_loop.simps [code]

text \<open>\<open>insert(key, data, size)\<close>. The value is the byte list \<open>v\<close>, \<open>size\<close> its length.
  \<open>draw\<close> are the random numbers of this call and \<open>malloc_ok\<close> tells whether \<open>malloc(size)\<close>
  returns a buffer. The result is the returned node pointer and the table; \<open>Inl\<close> is
  undefined behaviour or a failed assertion, no value at all a call that never returns.\<close>

definition table_insert :: "skiptable \<Rightarrow> bytes \<Rightarrow> bytes \<Rightarrow> (nat \<Rightarrow> int) \<Rightarrow> bool
    \<Rightarrow> (error + (nat option \<times> skiptable)) option" where
  "table_insert t k v draw malloc_ok =
     (if locked t then Some (Inr (None, t))
      else
        (let new_record_idx = (scast (next_record t) :: size_t);
             t1 = t\<lparr>next_record := next_record t + 1\<rparr>;
             sz = (of_nat (length v) :: size_t)
         in if \<not> unat new_record_idx < length (records t1) then Some (Inl Out_of_bounds)
            else if \<not> malloc_ok then
              Some (Inr (None, t1\<lparr>records := (records t1)[unat new_record_idx :=
                                     (records t1 ! unat new_record_idx)\<lparr>rdata := None\<rparr>]\<rparr>))
            else
              (let t2 = t1\<lparr>records := (records t1)[unat new_record_idx := \<lparr>rdata = Some v, rsize = sz\<rparr>],
                          total_data_size := total_data_size t1 + sz\<rparr>;
                   level = random_level draw 0;
                   idx = (ucast new_record_idx :: int32_t);
                   a = length (nodes t2);
                   h = nodes t2 @ [\<lparr>key = k, record_idx = idx, nxt = replicate MAX_TABLE_LEVELS None\<rparr>]
               in case insert_loop h k idx level a
                         (replicate MAX_TABLE_LEVELS None) (replicate MAX_TABLE_LEVELS None) of
                    None \<Rightarrow> None
                  | Some (Inl e) \<Rightarrow> Some (Inl e)
                  | Some (Inr (Existing_newer n2 h')) \<Rightarrow>
                      Some (Inr (Some n2, t2\<lparr>nodes := butlast h'\<rparr>))
                  | Some (Inr (Existing_older n2 h')) \<Rightarrow>
                      (let old = record_idx (h' ! n2);
                           h2 = h'[n2 := (h' ! n2)\<lparr>record_idx := idx\<rparr>];
                           j = unat (scast old :: size_t)
                       in if \<not> j < length (records t2) then Some (Inl Out_of_bounds)
                          else Some (Inr (Some n2,
                                 t2\<lparr>nodes := butlast h2,
                                    data_size := data_size t2 - rsize (records t2 ! j) + sz\<rparr>)))
                  | Some (Inr (Spliced h')) \<Rightarrow>
                      Some (Inr (Some a, t2\<lparr>nodes := h', data_size := data_size t2 + sz\<rparr>)))))"

subsection \<open>Abstraction of the links\<close>

text \<open>\<open>path h l p as q\<close>: following the level-\<open>l\<close> links from pointer \<open>p\<close> visits exactly the
  nodes \<open>as\<close> and arrives at pointer \<open>q\<close>; a \<open>chain\<close> is a path that ends at \<open>nullptr\<close>.\<close>

fun path :: "node list \<Rightarrow> nat \<Rightarrow> nat option \<Rightarrow> nat list \<Rightarrow> nat option \<Rightarrow> bool" where
  "path h l p [] q \<longleftrightarrow> p = q"
| "path h l p (a # as) q \<longleftrightarrow> p = Some a \<and> a < length h \<and> path h l (nxt (h ! a) ! l) as q"

definition chain :: "node list \<Rightarrow> nat \<Rightarrow> nat option \<Rightarrow> nat list \<Rightarrow> bool" where
  "chain h l p as \<longleftrightarrow> path h l p as None"

text \<open>\<open>at_end p pre\<close>: node \<open>p\<close> is the last node of \<open>pre\<close>, or the head when \<open>pre\<close> is empty.\<close>

definition at_end :: "nat \<Rightarrow> nat list \<Rightarrow> bool" where
  "at_end p pre \<longleftrightarrow> (pre = [] \<and> p = 0) \<or> (pre \<noteq> [] \<and> last pre = p)"

text \<open>\<open>gap h k c l u s\<close>: on level \<open>l\<close>, whose nodes from the head are \<open>c\<close>, the pointer \<open>u\<close>
  is a node with successor \<open>s\<close>, its key is below \<open>k\<close> (unless it is the head) and the key
  of \<open>s\<close> is above \<open>k\<close> (unless \<open>s\<close> is null).\<close>

definition gap :: "node list \<Rightarrow> bytes \<Rightarrow> nat list \<Rightarrow> nat \<Rightarrow> nat option \<Rightarrow> nat option \<Rightarrow> bool" where
  "gap h k c l u s \<longleftrightarrow>
     (\<exists>p pre suf. u = Some p \<and> c = pre @ suf \<and> at_end p pre \<and> s = nxt (h ! p) ! l \<and>
        chain h l s suf \<and> (p = 0 \<or> key (h ! p) < k) \<and> (\<forall>m. s = Some m \<longrightarrow> k < key (h ! m)))"

text \<open>The invariant of the list of nodes: every node has its 16 links; on every level
  the links from the head form a finite chain that does not contain the head; every
  node of a level is a node of the level below; and the keys along level 0 ascend
  strictly.\<close>

definition levels_ok :: "node list \<Rightarrow> (nat \<Rightarrow> nat list) \<Rightarrow> bool" where
  "levels_ok h C \<longleftrightarrow>
     h \<noteq> [] \<and> (\<forall>n < length h. length (nxt (h ! n)) = MAX_TABLE_LEVELS) \<and>
     (\<forall>l < MAX_TABLE_LEVELS. chain h l (nxt (h ! 0) ! l) (C l) \<and> 0 \<notin> set (C l)) \<and>
     (\<forall>l. Suc l < MAX_TABLE_LEVELS \<longrightarrow> set (C (Suc l)) \<subseteq> set (C l)) \<and>
     sorted_wrt (<) (map (\<lambda>n. key (h ! n)) (C 0))"

definition skiplist_inv :: "node list \<Rightarrow> bool" where
  "skiplist_inv h \<longleftrightarrow> (\<exists>C. levels_ok h C)"

text \<open>The traversal of the bottom level, from \<open>first()\<close> along \<open>iterate(0)\<close>, collecting the
  keys.\<close>

partial_function (option) traverse :: "node list \<Rightarrow> nat option \<Rightarrow> bytes list option" where
  "traverse h p =
     (case p of
        None \<Rightarrow> Some []
      | Some n \<Rightarrow> Option.bind (traverse h (iterate (h ! n) 0)) (\<lambda>ks. Some (key (h ! n) # ks)))"

declare traverse.simps [code]

text \<open>A sequence of \<open>insert\<close> calls on one table; the result is the table and the keys of
  the calls that returned a node.\<close>

fun inserts :: "skiptable \<Rightarrow> (bytes \<times> bytes \<times> (nat \<Rightarrow> int) \<times> bool) list
    \<Rightarrow> (error + (skiptable \<times> bytes list)) option" where
  "inserts t [] = Some (Inr (t, []))"
| "inserts t ((k, v, draw, malloc_ok) # ops) =
     (case table_insert t k v draw malloc_ok of
        None \<Rightarrow> None
      | Some (Inl e) \<Rightarrow> Some (Inl e)
      | Some (Inr (r, t')) \<Rightarrow>
          (case inserts t' ops of
             None \<Rightarrow> None
           | Some (Inl e) \<Rightarrow> Some (Inl e)
           | Some (Inr (t'', ks)) \<Rightarrow> Some (Inr (t'', if r = None then ks else k # ks))))"

text \<open>\<open>spliced h0 h a us uns S\<close>: \<open>h\<close> is \<open>h0\<close> after the new node \<open>a\<close> has been linked on
  the levels in \<open>S\<close>: there \<open>a\<close> points to \<open>uns\<close> and the node in \<open>us\<close> points to \<open>a\<close>;
  nothing else has changed.\<close>

definition spliced :: "node list \<Rightarrow> node list \<Rightarrow> nat \<Rightarrow> nat option list \<Rightarrow> nat option list
    \<Rightarrow> nat set \<Rightarrow> bool" where
  "spliced h0 h a us uns S \<longleftrightarrow>
     length h = length h0 \<and>
     (\<forall>n < length h0.
        key (h ! n) = key (h0 ! n) \<and> record_idx (h ! n) = record_idx (h0 ! n) \<and>
        length (nxt (h ! n)) = length (nxt (h0 ! n)) \<and>
        (\<forall>l < length (nxt (h0 ! n)).
           nxt (h ! n) ! l =
             (if l \<in> S then (if n = a then uns ! l
                              else if us ! l = Some n then Some a
                              else nxt (h0 ! n) ! l)
              else nxt (h0 ! n) ! l)))"

text \<open>The invariant of the record indices: \<open>records\<close> has \<open>writes_before_lock\<close> slots, fewer
  than \<open>2^31\<close>; \<open>next_record\<close> lies in \<open>0..writes_before_lock\<close>; and every node but the head
  holds an index in \<open>0..next_record - 1\<close>.\<close>

definition idx_ok :: "skiptable \<Rightarrow> bool" where
  "idx_ok t \<longleftrightarrow>
     length (records t) = unat (writes_before_lock (config t)) \<and>
     unat (writes_before_lock (config t)) < 2 ^ 31 \<and>
     0 \<le> sint (next_record t) \<and>
     sint (next_record t) \<le> int (unat (writes_before_lock (config t))) \<and>
     (\<forall>n < length (nodes t). 0 < n \<longrightarrow>
        0 \<le> sint (record_idx (nodes t ! n)) \<and>
        sint (record_idx (nodes t ! n)) < sint (next_record t))"

text \<open>A history of calls on one table: \<open>lock()\<close> and \<open>insert\<close>.\<close>

datatype table_op = Op_lock | Op_insert bytes bytes "nat \<Rightarrow> int" bool

fun table_run :: "skiptable \<Rightarrow> table_op list \<Rightarrow> (error + skiptable) option" where
  "table_run t [] = Some (Inr t)"
| "table_run t (Op_lock # ops) = table_run (snd (lock t)) ops"
| "table_run t (Op_insert k v draw malloc_ok # ops) =
     (case table_insert t k v draw malloc_ok of
        None \<Rightarrow> None
      | Some (Inl e) \<Rightarrow> Some (Inl e)
      | Some (Inr (r, t')) \<Rightarrow> table_run t' ops)"

definition returned :: "(error + 'a) option \<Rightarrow> bool" where
  "returned r = (case r of Some (Inr x) \<Rightarrow> True | _ \<Rightarrow> False)"

text \<open>A small configuration and some random draws, for evaluating the table: \<open>level_draws n\<close>
  makes \<open>random_level\<close> return \<open>n\<close>.\<close>

definition demo_opts :: config_opts where
  "demo_opts = \<lparr>writes_before_lock = 4, data_limit = 100, total_data_limit = 200\<rparr>"

definition level_draws :: "nat \<Rightarrow> nat \<Rightarrow> int" where
  "level_draws n j = (if j < n then 1 else 0)"

section \<open>SSTable (sstable.h)\<close>

text \<open>Integers are written to and read from the file as on the platforms the code
  supports: little-endian, a \<open>uint32_t\<close> in 4 bytes and a \<open>uint64_t\<close> or \<open>size_t\<close> in 8.
  The sizes stay 64-bit words throughout; a word becomes a list index only after it has
  been compared with the size of the file.\<close>

definition u32_bytes :: "32 word \<Rightarrow> bytes" where
  "u32_bytes w = map (\<lambda>i. ucast (drop_bit (8 * i) w)) [0..<4]"

definition u64_bytes :: "64 word \<Rightarrow> bytes" where
  "u64_bytes w = map (\<lambda>i. ucast (drop_bit (8 * i) w)) [0..<8]"

definition u32_of :: "bytes \<Rightarrow> 32 word" where
  "u32_of bs = foldr (\<lambda>b acc. ucast b OR push_bit 8 acc) bs 0"

definition u64_of :: "bytes \<Rightarrow> 64 word" where
  "u64_of bs = foldr (\<lambda>b acc. ucast b OR push_bit 8 acc) bs 0"

record sst_config =
  max_block_size :: size_t

record entry_header =
  prefix_bytes :: "32 word"
  suffix_bytes :: "32 word"
  value_bytes :: "64 word"

definition padding_bytes :: "size_t \<Rightarrow> size_t" where
  "padding_bytes n = 8 - (n mod 8)"

definition sizeof_entry_header :: size_t where
  "sizeof_entry_header = 16"

definition MAGIC_NUMBER :: "64 word" where
  "MAGIC_NUMBER = 0x677265676F727968"

record footer =
  ftr_block_size :: "64 word"
  ftr_block_count :: "64 word"
  ftr_entry_count :: "64 word"
  ftr_key_bytes :: "64 word"
  ftr_value_bytes :: "64 word"
  ftr_magic :: "64 word"

definition sizeof_footer :: size_t where
  "sizeof_footer = 48"

definition header_bytes :: "entry_header \<Rightarrow> bytes" where
  "header_bytes hdr = u32_bytes (prefix_bytes hdr) @ u32_bytes (suffix_bytes hdr) @ u64_bytes (value_bytes hdr)"

definition footer_bytes_of :: "footer \<Rightarrow> bytes" where
  "footer_bytes_of f =
     u64_bytes (ftr_block_size f) @ u64_bytes (ftr_block_count f) @ u64_bytes (ftr_entry_count f) @
     u64_bytes (ftr_key_bytes f) @ u64_bytes (ftr_value_bytes f) @ u64_bytes (ftr_magic f)"

text \<open>The loop of \<open>header_from\<close>: the number of leading bytes that \<open>prefix\<close> and \<open>key\<close>
  share.\<close>

fun common_prefix :: "bytes \<Rightarrow> bytes \<Rightarrow> nat" where
  "common_prefix (x # xs) (y # ys) = (if x \<noteq> y then 0 else Suc (common_prefix xs ys))"
| "common_prefix xs ys = 0"

text \<open>\<open>header_from(prefix, n)\<close> takes \<open>prefix\<close> by reference and sets it to the key when it
  is empty; the result is the header and the prefix afterwards. \<open>vsize\<close> is
  \<open>n->value()->size\<close>.\<close>

definition header_from :: "bytes \<Rightarrow> bytes \<Rightarrow> size_t \<Rightarrow> entry_header \<times> bytes" where
  "header_from prefix k vsize =
     (let pb = (if prefix = [] then 0 else common_prefix prefix k);
          prefix' = (if prefix = [] then k else prefix)
      in (\<lparr>prefix_bytes = of_nat pb, suffix_bytes = of_nat (length k - pb), value_bytes = vsize\<rparr>,
          prefix'))"

text \<open>The state of the loop of \<open>build\<close>: its local variables and the bytes written to the
  output stream so far.\<close>

record build_state =
  blocks :: size_t
  key_bytes :: size_t
  data_bytes :: size_t
  entries :: size_t
  prefix :: bytes
  block_bytes :: size_t
  idx_offsets :: "64 word list"
  out :: bytes

text \<open>The zero fill \<open>for (; block_bytes < max_block_size - footer_bytes; block_bytes++)\<close>
  followed by the block footer: the index offsets and their count.\<close>

definition block_footer :: "sst_config \<Rightarrow> build_state \<Rightarrow> build_state" where
  "block_footer cfg s =
     (let idx_count = (of_nat (length (idx_offsets s)) :: 64 word);
          footer_bytes = 8 * (idx_count + 1);
          lim = max_block_size cfg - footer_bytes;
          fill = (if block_bytes s < lim then unat (lim - block_bytes s) else 0)
      in s\<lparr>out := out s @ replicate fill 0 @ concat (map u64_bytes (idx_offsets s)) @ u64_bytes idx_count,
            block_bytes := (if block_bytes s < lim then lim else block_bytes s),
            blocks := blocks s + 1\<rparr>)"

text \<open>The bytes of a record, as \<open>write(record->data, record->size)\<close> and \<open>memcpy\<close> read
  them: \<open>size\<close> bytes from \<open>data\<close>, none when the size is 0.\<close>

definition record_bytes :: "skip_record \<Rightarrow> error + bytes" where
  "record_bytes r =
     (case rdata r of
        Some v \<Rightarrow> Inr (take (unat (rsize r)) v)
      | None \<Rightarrow> if rsize r = 0 then Inr [] else Inl Null_pointer)"

text \<open>One iteration of \<open>while (n)\<close> for the node with key \<open>k\<close> and record \<open>r\<close>; \<open>is_last\<close>
  tells whether \<open>n->iterate()\<close> is null.\<close>

definition build_entry :: "sst_config \<Rightarrow> build_state \<Rightarrow> bytes \<Rightarrow> skip_record \<Rightarrow> bool \<Rightarrow> error + build_state" where
  "build_entry cfg s0 k r is_last =
     (case record_bytes r of
        Inl e \<Rightarrow> Inl e
      | Inr v \<Rightarrow>
     (let s1 = s0\<lparr>key_bytes := key_bytes s0 + of_nat (length k),
                  data_bytes := data_bytes s0 + rsize r,
                  entries := entries s0 + 1\<rparr>;
          (hdr, prefix') = header_from (prefix s1) k (rsize r);
          s2 = s1\<lparr>prefix := prefix'\<rparr>;
          idx_key = (prefix_bytes hdr = 0);
          entry_bytes = sizeof_entry_header
                        + ucast (suffix_bytes hdr)
                        + padding_bytes (ucast (suffix_bytes hdr))
                        + rsize r
                        + padding_bytes (rsize r);
          s3 = (if block_bytes s2 > (max_block_size cfg
                                      - entry_bytes
                                      - ((if idx_key then 1 else 0) * 8)
                                      - (of_nat (length (idx_offsets s2)) * 8)
                                      - 8)
                then (block_footer cfg s2)\<lparr>block_bytes := 0, idx_offsets := [], prefix := []\<rparr>
                else s2);
          s4 = (if idx_key then s3\<lparr>idx_offsets := idx_offsets s3 @ [block_bytes s3]\<rparr> else s3);
          s5 = s4\<lparr>out := out s4
                       @ header_bytes hdr
                       @ take (unat (suffix_bytes hdr)) (drop (unat (prefix_bytes hdr)) k)
                       @ replicate (unat (padding_bytes (ucast (suffix_bytes hdr)))) 0
                       @ v
                       @ replicate (unat (padding_bytes (rsize r))) 0,
                    block_bytes := block_bytes s4 + entry_bytes\<rparr>
      in Inr (if is_last then block_footer cfg s5 else s5)))"

text \<open>The nodes of the bottom level in the order of \<open>first()\<close>, \<open>iterate()\<close>, ...\<close>

partial_function (option) bottom_nodes :: "node list \<Rightarrow> nat option \<Rightarrow> nat list option" where
  "bottom_nodes h p =
     (case p of
        None \<Rightarrow> Some []
      | Some n \<Rightarrow> Option.bind (bottom_nodes h (iterate (h ! n) 0)) (\<lambda>ns. Some (n # ns)))"

declare bottom_nodes.simps [code]

fun build_loop :: "sst_config \<Rightarrow> skiptable \<Rightarrow> build_state \<Rightarrow> nat list \<Rightarrow> error + build_state" where
  "build_loop cfg t s [] = Inr s"
| "build_loop cfg t s (n # ns) =
     (case get_node t (Some n) of
        None \<Rightarrow> Inl Null_pointer
      | Some r \<Rightarrow>
          (case build_entry cfg s (key (nodes t ! n)) r (ns = []) of
             Inl e \<Rightarrow> Inl e
           | Inr s' \<Rightarrow> build_loop cfg t s' ns))"

text \<open>\<open>build(table)\<close>: \<open>Inr None\<close> is \<open>return false\<close> (the table is not locked), \<open>Inr (Some f)\<close>
  is \<open>return true\<close> with the bytes \<open>f\<close> of the file written.\<close>

definition build :: "sst_config \<Rightarrow> skiptable \<Rightarrow> (error + bytes option) option" where
  "build cfg t =
     (if \<not> locked t then Some (Inr None)
      else
        (case bottom_nodes (nodes t) (table_first t 0) of
           None \<Rightarrow> None
         | Some ns \<Rightarrow>
             (case build_loop cfg t
                     \<lparr>blocks = 0, key_bytes = 0, data_bytes = 0, entries = 0, prefix = [],
                      block_bytes = 0, idx_offsets = [], out = []\<rparr> ns of
                Inl e \<Rightarrow> Some (Inl e)
              | Inr s \<Rightarrow>
                  Some (Inr (Some (out s @ footer_bytes_of
                     \<lparr>ftr_block_size = max_block_size cfg, ftr_block_count = blocks s,
                      ftr_entry_count = entries s, ftr_key_bytes = key_bytes s,
                      ftr_value_bytes = data_bytes s, ftr_magic = MAGIC_NUMBER\<rparr>))))))"

subsection \<open>Reading\<close>

text \<open>The file is mapped at \<open>fptr\<close>; an address is \<open>fptr\<close> plus a 64-bit offset. Reading
  outside the \<open>file_size\<close> bytes of the file is undefined behaviour. A \<open>string_view\<close> into
  the file is modelled by the bytes it denotes, read when the view is made; in a file
  written by \<open>build\<close> the views of the entries lie inside the file.\<close>

definition read_bytes :: "bytes \<Rightarrow> size_t \<Rightarrow> size_t \<Rightarrow> error + bytes" where
  "read_bytes file off n =
     (let file_size = (of_nat (length file) :: size_t)
      in if off \<le> file_size \<and> n \<le> file_size - off
         then Inr (take (unat n) (drop (unat off) file))
         else Inl Out_of_bounds)"

definition read_u64 :: "bytes \<Rightarrow> size_t \<Rightarrow> error + 64 word" where
  "read_u64 file off =
     (case read_bytes file off 8 of Inl e \<Rightarrow> Inl e | Inr bs \<Rightarrow> Inr (u64_of bs))"

definition read_u32 :: "bytes \<Rightarrow> size_t \<Rightarrow> error + 32 word" where
  "read_u32 file off =
     (case read_bytes file off 4 of Inl e \<Rightarrow> Inl e | Inr bs \<Rightarrow> Inr (u32_of bs))"

definition read_header :: "bytes \<Rightarrow> size_t \<Rightarrow> error + entry_header" where
  "read_header file off =
     (case read_u32 file off of
        Inl e \<Rightarrow> Inl e
      | Inr pb \<Rightarrow>
          (case read_u32 file (off + 4) of
             Inl e \<Rightarrow> Inl e
           | Inr sb \<Rightarrow>
               (case read_u64 file (off + 8) of
                  Inl e \<Rightarrow> Inl e
                | Inr vb \<Rightarrow> Inr \<lparr>prefix_bytes = pb, suffix_bytes = sb, value_bytes = vb\<rparr>)))"

definition read_footer :: "bytes \<Rightarrow> size_t \<Rightarrow> error + footer" where
  "read_footer file off =
     (case read_bytes file off 48 of
        Inl e \<Rightarrow> Inl e
      | Inr bs \<Rightarrow>
          Inr \<lparr>ftr_block_size = u64_of (take 8 bs),
               ftr_block_count = u64_of (take 8 (drop 8 bs)),
               ftr_entry_count = u64_of (take 8 (drop 16 bs)),
               ftr_key_bytes = u64_of (take 8 (drop 24 bs)),
               ftr_value_bytes = u64_of (take 8 (drop 32 bs)),
               ftr_magic = u64_of (take 8 (drop 40 bs))\<rparr>)"

text \<open>\<open>std::string_view::substr(pos, n)\<close> throws \<open>std::out_of_range\<close> when \<open>pos\<close> is
  beyond the end.\<close>

definition substr :: "bytes \<Rightarrow> nat \<Rightarrow> nat \<Rightarrow> error + bytes" where
  "substr s pos n = (if pos > length s then Inl Out_of_range else Inr (take n (drop pos s)))"

text \<open>The block search \<open>for (; block < ftr->block_count; block++)\<close>: the result is the value
  of \<open>block\<close> when the loop is left.\<close>

fun find_block :: "bytes \<Rightarrow> footer \<Rightarrow> bytes \<Rightarrow> nat list \<Rightarrow> error + size_t" where
  "find_block file ftr k [] = Inr (ftr_block_count ftr)"
| "find_block file ftr k (b # bs) =
     (let offset = (of_nat b :: size_t) * ftr_block_size ftr
      in case read_header file offset of
           Inl e \<Rightarrow> Inl e
         | Inr hdr \<Rightarrow>
             if prefix_bytes hdr \<noteq> 0 then Inl Assertion_failed
             else (case read_bytes file (offset + sizeof_entry_header) (ucast (suffix_bytes hdr)) of
                     Inl e \<Rightarrow> Inl e
                   | Inr k' \<Rightarrow> if sv_compare k k' < 0 then Inr (of_nat b)
                                else find_block file ftr k bs))"

text \<open>The index search inside the block; the result is \<open>idx_offset\<close> and \<open>prefix\<close> when the
  loop is left.\<close>

fun find_index :: "bytes \<Rightarrow> size_t \<Rightarrow> size_t \<Rightarrow> 64 word \<Rightarrow> bytes \<Rightarrow> 64 word \<Rightarrow> bytes \<Rightarrow> nat list
    \<Rightarrow> error + (64 word \<times> bytes)" where
  "find_index file block_base bsize idx_count k idx_offset pfx [] = Inr (idx_offset, pfx)"
| "find_index file block_base bsize idx_count k idx_offset pfx (i # is) =
     (let last_offset = idx_offset
      in case read_u64 file (block_base + bsize - (8 * (1 + idx_count - of_nat i))) of
           Inl e \<Rightarrow> Inl e
         | Inr idx_offset' \<Rightarrow>
             (case read_header file (block_base + idx_offset') of
                Inl e \<Rightarrow> Inl e
              | Inr hdr \<Rightarrow>
                  if prefix_bytes hdr \<noteq> 0 then Inl Assertion_failed
                  else (case read_bytes file (block_base + idx_offset' + sizeof_entry_header)
                               (ucast (suffix_bytes hdr)) of
                          Inl e \<Rightarrow> Inl e
                        | Inr k' \<Rightarrow>
                            if sv_compare k k' < 0 then Inr (last_offset, pfx)
                            else find_index file block_base bsize idx_count k idx_offset' k' is)))"

text \<open>The \<open>do ... while (hdr->prefix_bytes != 0)\<close> over the entries from the header at
  offset \<open>pos\<close>. \<open>Inr (Some v)\<close>: found, \<open>v\<close> copied to \<open>data_out\<close>; \<open>Inr None\<close>: the loop was
  left.\<close>

partial_function (option) walk_entries :: "bytes \<Rightarrow> bytes \<Rightarrow> bytes \<Rightarrow> size_t \<Rightarrow> (error + bytes option) option" where
  "walk_entries file k pfx pos =
     (case read_header file pos of
        Inl e \<Rightarrow> Some (Inl e)
      | Inr hdr \<Rightarrow>
          (case read_bytes file (pos + sizeof_entry_header) (ucast (suffix_bytes hdr)) of
             Inl e \<Rightarrow> Some (Inl e)
           | Inr suffix \<Rightarrow>
               (case substr k 0 (unat (prefix_bytes hdr)) of
                  Inl e \<Rightarrow> Some (Inl e)
                | Inr k_pre \<Rightarrow>
                    (case substr pfx 0 (unat (prefix_bytes hdr)) of
                       Inl e \<Rightarrow> Some (Inl e)
                     | Inr p_pre \<Rightarrow>
                         (case (if k_pre = p_pre
                                then substr k (unat (prefix_bytes hdr)) (unat (suffix_bytes hdr))
                                else Inr []) of
                            Inl e \<Rightarrow> Some (Inl e)
                          | Inr k_suf \<Rightarrow>
                              if k_pre = p_pre \<and> k_suf = suffix then
                                (case read_bytes file
                                        (pos + sizeof_entry_header + ucast (suffix_bytes hdr)
                                           + padding_bytes (ucast (suffix_bytes hdr)))
                                        (value_bytes hdr) of
                                   Inl e \<Rightarrow> Some (Inl e)
                                 | Inr v \<Rightarrow> Some (Inr (Some v)))
                              else
                                (let pos' = pos + sizeof_entry_header
                                              + ucast (suffix_bytes hdr)
                                              + padding_bytes (ucast (suffix_bytes hdr))
                                              + value_bytes hdr
                                              + padding_bytes (value_bytes hdr)
                                 in case read_u32 file pos' of
                                      Inl e \<Rightarrow> Some (Inl e)
                                    | Inr pb \<Rightarrow>
                                        if pb \<noteq> 0 then walk_entries file k pfx pos'
                                        else Some (Inr None)))))))"

declare walk_entries.simps [code]

text \<open>\<open>sstable::get(key, data_out)\<close> on the bytes of the file.\<close>

definition sst_get :: "bytes \<Rightarrow> bytes \<Rightarrow> (error + bytes option) option" where
  "sst_get file k =
     (let file_size = (of_nat (length file) :: size_t)
      in case read_footer file (file_size - sizeof_footer) of
           Inl e \<Rightarrow> Some (Inl e)
         | Inr ftr \<Rightarrow>
             if ftr_magic ftr \<noteq> MAGIC_NUMBER then Some (Inl Assertion_failed)
             else (case find_block file ftr k [0..<unat (ftr_block_count ftr)] of
                     Inl e \<Rightarrow> Some (Inl e)
                   | Inr block0 \<Rightarrow>
                       (let block = block0 - 1;
                            block_base = block * ftr_block_size ftr
                        in case read_u64 file (block_base + ftr_block_size ftr - 8) of
                             Inl e \<Rightarrow> Some (Inl e)
                           | Inr idx_count \<Rightarrow>
                               (case find_index file block_base (ftr_block_size ftr) idx_count k 0 []
                                        [0..<unat idx_count] of
                                  Inl e \<Rightarrow> Some (Inl e)
                                | Inr (idx_offset, pfx) \<Rightarrow>
                                    walk_entries file k pfx (block_base + idx_offset)))))"

text \<open>Tables for evaluating \<open>build\<close> and \<open>get\<close>: the table left by a history of calls.\<close>

definition table_after :: "config_opts \<Rightarrow> table_op list \<Rightarrow> skiptable" where
  "table_after opts ops =
     (case table_run (skiptable_new opts) ops of Some (Inr t) \<Rightarrow> t | _ \<Rightarrow> skiptable_new opts)"

definition file_of :: "(error + bytes option) option \<Rightarrow> bytes" where
  "file_of r = (case r of Some (Inr (Some f)) \<Rightarrow> f | _ \<Rightarrow> [])"

section \<open>Write-ahead log (wal.h)\<close>

text \<open>The queue \<open>putq\<close> holds node pointers; \<open>logfile\<close> is the content of the log file. The
  calls are sequential: a call of \<open>log\<close> always gets the exclusive lock and drains the
  queue itself, so every queued node belongs to the table \<open>t\<close> of the call.\<close>

record walfile =
  concurrent_put_limit :: size_t
  putq :: "nat option list"
  wal_write :: size_t
  wal_read :: size_t
  logfile :: bytes

definition walfile_new :: "size_t \<Rightarrow> walfile" where
  "walfile_new n =
     \<lparr>concurrent_put_limit = n, putq = replicate (unat n) None, wal_write = 0, wal_read = 0,
      logfile = []\<rparr>"

text \<open>The loop \<open>while (this->read != this->write)\<close>; \<open>std::endl\<close> writes the byte 10.\<close>

partial_function (option) drain :: "skiptable \<Rightarrow> walfile \<Rightarrow> (error + walfile) option" where
  "drain t w =
     (if wal_read w = wal_write w then Some (Inr w)
      else if \<not> unat (wal_read w) < length (putq w) then Some (Inl Out_of_range)
      else (case putq w ! unat (wal_read w) of
              None \<Rightarrow> Some (Inl Null_pointer)
            | Some n \<Rightarrow>
                (case get_node t (Some n) of
                   None \<Rightarrow> Some (Inl Null_pointer)
                 | Some r \<Rightarrow>
                     (case record_bytes r of
                        Inl e \<Rightarrow> Some (Inl e)
                      | Inr v \<Rightarrow>
                          if concurrent_put_limit w = 0 then Some (Inl Division_by_zero)
                          else drain t
                                 (w\<lparr>putq := (putq w)[unat (wal_read w) := None],
                                    logfile := logfile w @ key (nodes t ! n) @ [10] @ v,
                                    wal_read := (wal_read w + 1) mod concurrent_put_limit w\<rparr>)))))"

declare drain.simps [code]

text \<open>\<open>log(node)\<close>. With the queue full (\<open>next == read\<close>) the call jumps back to \<open>log_retry\<close>
  with nothing changed, for ever: no value.\<close>

definition log :: "walfile \<Rightarrow> skiptable \<Rightarrow> nat \<Rightarrow> (error + walfile) option" where
  "log w t n =
     (if concurrent_put_limit w = 0 then Some (Inl Division_by_zero)
      else
        (let nx = (wal_write w + 1) mod concurrent_put_limit w
         in if nx = wal_read w then None
            else if \<not> unat (wal_write w) < length (putq w) then Some (Inl Out_of_range)
            else drain t (w\<lparr>putq := (putq w)[unat (wal_write w) := Some n], wal_write := nx\<rparr>)))"

subsection \<open>load\<close>

text \<open>The input stream: the bytes not yet read and whether \<open>good()\<close> holds.\<close>

record istream =
  rest :: bytes
  stream_good :: bool

text \<open>\<open>std::getline(file, str)\<close> into a new empty string: on a stream that is not good it
  extracts nothing; otherwise it extracts up to the next byte 10, which it drops, or up
  to the end of the file, which sets \<open>eofbit\<close>.\<close>

definition getline :: "istream \<Rightarrow> bytes \<times> istream" where
  "getline s =
     (if \<not> stream_good s then ([], s)
      else if 10 \<in> set (rest s)
      then (takeWhile (\<lambda>b. b \<noteq> 10) (rest s),
            \<lparr>rest = tl (dropWhile (\<lambda>b. b \<noteq> 10) (rest s)), stream_good = True\<rparr>)
      else (rest s, \<lparr>rest = [], stream_good = False\<rparr>))"

function read_pairs :: "istream \<Rightarrow> error + (bytes \<times> bytes) list" where
  "read_pairs s =
     (if \<not> stream_good s then Inr []
      else
        (let (k, s1) = getline s
         in if \<not> stream_good s1 then Inl Assertion_failed
            else
              (let (v, s2) = getline s1
               in case read_pairs s2 of
                    Inl e \<Rightarrow> Inl e
                  | Inr kvs \<Rightarrow> Inr ((k, v) # kvs))))"
  by pat_completeness auto
termination
proof (relation "measure (\<lambda>s. length (rest s))", goal_cases)
  case 1
  show ?case by simp
next
  case (2 s x k s1 y v s2)
  have le: "length (tl (dropWhile (\<lambda>b. b \<noteq> 10) xs)) \<le> length xs" for xs :: bytes
    using length_dropWhile_le [of "\<lambda>b. b \<noteq> 10" xs] by simp
  have lt: "length (tl (dropWhile (\<lambda>b. b \<noteq> 10) xs)) < length xs" if "10 \<in> set xs" for xs :: bytes
  proof -
    from that have "dropWhile (\<lambda>b. b \<noteq> 10) xs \<noteq> []" by simp
    then have "length (tl (dropWhile (\<lambda>b. b \<noteq> 10) xs)) < length (dropWhile (\<lambda>b. b \<noteq> 10) xs)"
      by (cases "dropWhile (\<lambda>b. b \<noteq> 10) xs") simp_all
    with length_dropWhile_le [of "\<lambda>b. b \<noteq> 10" xs] show ?thesis by simp
  qed
  from 2 have s1: "s1 = snd (getline s)" and s2: "s2 = snd (getline s1)" by (metis snd_conv)+
  from 2 s1 have "10 \<in> set (rest s)" and r1: "rest s1 = tl (dropWhile (\<lambda>b. b \<noteq> 10) (rest s))"
    by (auto simp: getline_def split: if_splits)
  from lt [OF this(1)] r1 have a: "length (rest s1) < length (rest s)" by simp
  from 2 s2 have "length (rest s2) \<le> length (rest s1)"
    using le [of "rest s1"] by (auto simp: getline_def split: if_splits)
  with a show ?case by simp
qed

text \<open>The loop over the reversed pairs. \<open>inserted\<close> is the \<open>unordered_set\<close>. The call is
  \<open>table.insert(kv.first.substr(0, kv.first.size() - 1), kv.second.data(), kv.second.size() - 1)\<close>:
  for an empty \<open>kv.second\<close> the size is \<open>SIZE_MAX\<close>, which no \<open>malloc\<close> can serve.\<close>

fun load_pairs :: "skiptable \<Rightarrow> bytes list \<Rightarrow> (bytes \<times> bytes) list \<Rightarrow> (nat \<Rightarrow> int) \<Rightarrow> bool
    \<Rightarrow> (error + skiptable) option" where
  "load_pairs t inserted [] draw malloc_ok = Some (Inr t)"
| "load_pairs t inserted ((k, v) # kvs) draw malloc_ok =
     (if k \<in> set inserted then load_pairs t inserted kvs draw malloc_ok
      else if locked t then Some (Inl Assertion_failed)
      else (case table_insert t (butlast k) (butlast v) draw (malloc_ok \<and> v \<noteq> []) of
              None \<Rightarrow> None
            | Some (Inl e) \<Rightarrow> Some (Inl e)
            | Some (Inr (r, t')) \<Rightarrow> load_pairs t' (k # inserted) kvs draw malloc_ok))"

definition load :: "bytes \<Rightarrow> skiptable \<Rightarrow> (nat \<Rightarrow> int) \<Rightarrow> bool \<Rightarrow> (error + skiptable) option" where
  "load file t draw malloc_ok =
     (case read_pairs \<lparr>rest = file, stream_good = True\<rparr> of
        Inl e \<Rightarrow> Some (Inl e)
      | Inr kvs \<Rightarrow> load_pairs t [] (rev kvs) draw malloc_ok)"

text \<open>Logging every accepted insert of a sequence, as \<open>kvstore::put\<close> does: the result is
  the table and the log.\<close>

fun logged_inserts :: "skiptable \<Rightarrow> walfile \<Rightarrow> (bytes \<times> bytes \<times> (nat \<Rightarrow> int) \<times> bool) list
    \<Rightarrow> (error + (skiptable \<times> walfile)) option" where
  "logged_inserts t w [] = Some (Inr (t, w))"
| "logged_inserts t w ((k, v, draw, malloc_ok) # ops) =
     (case table_insert t k v draw malloc_ok of
        None \<Rightarrow> None
      | Some (Inl e) \<Rightarrow> Some (Inl e)
      | Some (Inr (None, t')) \<Rightarrow> logged_inserts t' w ops
      | Some (Inr (Some n, t')) \<Rightarrow>
          (case log w t' n of
             None \<Rightarrow> None
           | Some (Inl e) \<Rightarrow> Some (Inl e)
           | Some (Inr w') \<Rightarrow> logged_inserts t' w' ops))"

definition wal_of :: "(error + (skiptable \<times> walfile)) option \<Rightarrow> bytes" where
  "wal_of r = (case r of Some (Inr (t, w)) \<Rightarrow> logfile w | _ \<Rightarrow> [])"

definition loaded :: "(error + skiptable) option \<Rightarrow> skiptable" where
  "loaded r = (case r of Some (Inr t) \<Rightarrow> t | _ \<Rightarrow> skiptable_new demo_opts)"

section \<open>Store coordinator (kvstore.h)\<close>

text \<open>An SSTable handle: the time stamp of its creation, the path of its file (the
  time stamp is the file name) and the configuration.\<close>

record sstable =
  sst_t :: nat
  sst_path :: nat
  sst_config :: sst_config

record config_options =
  memtable_options :: config_opts
  sst_options :: sst_config
  wal_options :: size_t
  memtable_history :: size_t

text \<open>The store. \<open>hist\<close> is the linked list of sealed memtables from its head; \<open>sstq\<close> is
  the vector \<open>c\<close> underlying the \<open>std::priority_queue\<close>; \<open>files\<close> are the SSTable files
  on disk and \<open>now\<close> is the reading of \<open>steady_clock\<close>, which advances with every
  reading.\<close>

record kvstore =
  kv_config :: config_options
  mtable :: skiptable
  wal :: walfile
  hist :: "skiptable list"
  sstq :: "sstable list"
  files :: "(nat \<times> bytes) list"
  now :: nat

definition kvstore_new :: "config_options \<Rightarrow> kvstore" where
  "kvstore_new opts =
     \<lparr>kv_config = opts, mtable = skiptable_new (memtable_options opts),
      wal = walfile_new (wal_options opts), hist = [], sstq = [], files = [], now = 0\<rparr>"

definition save_memtable :: "kvstore \<Rightarrow> kvstore" where
  "save_memtable s =
     (if table_empty (mtable s) then s
      else s\<lparr>mtable := skiptable_new (memtable_options (kv_config s)),
             hist := snd (lock (mtable s)) # hist s\<rparr>)"

text \<open>\<open>put\<close>, with its \<open>goto put_retry\<close>. \<open>draw\<close> and \<open>malloc_ok\<close> are those of
  \<open>skiptable::insert\<close>.\<close>

partial_function (option) put :: "kvstore \<Rightarrow> bytes \<Rightarrow> bytes \<Rightarrow> (nat \<Rightarrow> int) \<Rightarrow> bool
    \<Rightarrow> (error + kvstore) option" where
  "put s k v draw malloc_ok =
     (case table_insert (mtable s) k v draw malloc_ok of
        None \<Rightarrow> None
      | Some (Inl e) \<Rightarrow> Some (Inl e)
      | Some (Inr (None, t')) \<Rightarrow> put (save_memtable (s\<lparr>mtable := t'\<rparr>)) k v draw malloc_ok
      | Some (Inr (Some n, t')) \<Rightarrow>
          (case log (wal s) t' n of
             None \<Rightarrow> None
           | Some (Inl e) \<Rightarrow> Some (Inl e)
           | Some (Inr w') \<Rightarrow> Some (Inr (s\<lparr>mtable := t', wal := w'\<rparr>))))"

declare put.simps [code]

text \<open>Modelled from the C++ standard library, which is not part of the sources:
  \<open>priority_queue::emplace\<close> is \<open>push_back\<close> followed by \<open>std::push_heap\<close> with
  \<open>operator<\<close> of \<open>sstable\<close>, which compares the time stamps.\<close>

function sift_up :: "sstable list \<Rightarrow> nat \<Rightarrow> sstable list" where
  "sift_up c i =
     (if i = 0 then c
      else (let p = (i - 1) div 2
            in if sst_t (c ! p) < sst_t (c ! i) then sift_up (c[p := c ! i, i := c ! p]) p
               else c))"
  by pat_completeness auto
termination
  by (relation "measure (\<lambda>(c, i). i)") auto

definition emplace :: "sstable list \<Rightarrow> sstable \<Rightarrow> sstable list" where
  "emplace c x = sift_up (c @ [x]) (length c)"

text \<open>The loop of \<open>flush_memtables\<close> over the saved history, from its head: each table is
  built into a new file, whose handle enters the queue. The constructor asserts that
  \<open>build\<close> returned true.\<close>

fun flush_tables :: "kvstore \<Rightarrow> skiptable list \<Rightarrow> (error + kvstore) option" where
  "flush_tables s [] = Some (Inr s)"
| "flush_tables s (t # ts) =
     (let stamp = now s
      in case build (sst_options (kv_config s)) t of
           None \<Rightarrow> None
         | Some (Inl e) \<Rightarrow> Some (Inl e)
         | Some (Inr None) \<Rightarrow> Some (Inl Assertion_failed)
         | Some (Inr (Some f)) \<Rightarrow>
             flush_tables
               (s\<lparr>now := Suc stamp,
                  files := (stamp, f) # files s,
                  sstq := emplace (sstq s)
                            \<lparr>sst_t = stamp, sst_path = stamp, sst_config = sst_options (kv_config s)\<rparr>\<rparr>)
               ts)"

definition flush_memtables :: "kvstore \<Rightarrow> (error + kvstore) option" where
  "flush_memtables s0 =
     (let s1 = save_memtable s0;
          s2 = s1\<lparr>wal := walfile_new (wal_options (kv_config s1)), now := Suc (now s1)\<rparr>
      in flush_tables (s2\<lparr>hist := []\<rparr>) (hist s2))"

text \<open>One wake-up of the background thread.\<close>

definition background :: "kvstore \<Rightarrow> (error + kvstore) option" where
  "background s =
     (if (of_nat (length (hist s)) :: size_t) > memtable_history (kv_config s)
      then flush_memtables s else Some (Inr s))"

text \<open>\<open>get(key, data_out)\<close>: \<open>Inr (Some v)\<close> is \<open>true\<close> with \<open>v\<close> in \<open>data_out\<close>, \<open>Inr None\<close> is
  \<open>false\<close>.\<close>

fun get_hist :: "skiptable list \<Rightarrow> bytes \<Rightarrow> (error + bytes option) option" where
  "get_hist [] k = Some (Inr None)"
| "get_hist (t # ts) k =
     (case get_key t k of
        None \<Rightarrow> None
      | Some None \<Rightarrow> get_hist ts k
      | Some (Some r) \<Rightarrow>
          (case record_bytes r of Inl e \<Rightarrow> Some (Inl e) | Inr v \<Rightarrow> Some (Inr (Some v))))"

fun get_sst :: "(nat \<times> bytes) list \<Rightarrow> sstable list \<Rightarrow> bytes \<Rightarrow> (error + bytes option) option" where
  "get_sst fs [] k = Some (Inr None)"
| "get_sst fs (e # es) k =
     (case map_of fs (sst_path e) of
        None \<Rightarrow> Some (Inl Assertion_failed)
      | Some f \<Rightarrow>
          (case sst_get f k of
             None \<Rightarrow> None
           | Some (Inl e) \<Rightarrow> Some (Inl e)
           | Some (Inr (Some v)) \<Rightarrow> Some (Inr (Some v))
           | Some (Inr None) \<Rightarrow> get_sst fs es k))"

definition get :: "kvstore \<Rightarrow> bytes \<Rightarrow> (error + bytes option) option" where
  "get s k =
     (case get_hist (mtable s # hist s) k of
        None \<Rightarrow> None
      | Some (Inl e) \<Rightarrow> Some (Inl e)
      | Some (Inr (Some v)) \<Rightarrow> Some (Inr (Some v))
      | Some (Inr None) \<Rightarrow> get_sst (files s) (sstq s) k)"

text \<open>Sequences of operations on one store, one after the other.\<close>

datatype kv_op = Put bytes bytes "nat \<Rightarrow> int" bool | Background

fun kv_run :: "kvstore \<Rightarrow> kv_op list \<Rightarrow> (error + kvstore) option" where
  "kv_run s [] = Some (Inr s)"
| "kv_run s (Put k v draw malloc_ok # ops) =
     (case put s k v draw malloc_ok of
        None \<Rightarrow> None
      | Some (Inl e) \<Rightarrow> Some (Inl e)
      | Some (Inr s') \<Rightarrow> kv_run s' ops)"
| "kv_run s (Background # ops) =
     (case background s of
        None \<Rightarrow> None
      | Some (Inl e) \<Rightarrow> Some (Inl e)
      | Some (Inr s') \<Rightarrow> kv_run s' ops)"

definition store_after :: "config_options \<Rightarrow> kv_op list \<Rightarrow> kvstore" where
  "store_after opts ops =
     (case kv_run (kvstore_new opts) ops of Some (Inr s) \<Rightarrow> s | _ \<Rightarrow> kvstore_new opts)"

text \<open>A configuration with a small block and a memtable that seals after one write; the
  history depth is the default.\<close>

definition small_options :: config_options where
  "small_options =
     \<lparr>memtable_options = \<lparr>writes_before_lock = 1, data_limit = 16777216, total_data_limit = 167772160\<rparr>,
      sst_options = \<lparr>max_block_size = 128\<rparr>,
      wal_options = 256,
      memtable_history = 2\<rparr>"

section \<open>Proofs: Bloom filters\<close>


lemma sub_bit_nonzero: "sub_bit b \<noteq> 0"
proof -
  have "unat (b mod 8) < 8"
    by (simp add: unat_mod_distrib)
  then show ?thesis
    unfolding sub_bit_def by (simp add: push_bit_eq_mult)
qed

lemma or_and_keeps: "x AND s \<noteq> 0 \<Longrightarrow> (x OR y) AND s \<noteq> (0::byte)"
  by (simp add: bit.conj_disj_distrib2 or_eq_0_iff)

lemma or_and_self: "(x OR s) AND s = (s::byte)"
  by (simp add: bit.conj_disj_distrib2)

lemma memory_set_shape:
  "memory_set m b = Inr m' \<Longrightarrow>
     slices m' = slices m \<and> bps m' = bps m \<and> length (bits m') = length (bits m)"
  by (auto simp: memory_set_def Let_def split: if_splits)

lemma memory_set_sets: "memory_set m b = Inr m' \<Longrightarrow> memory_check m' b = Inr True"
  by (auto simp: memory_set_def memory_check_def Let_def or_and_self sub_bit_nonzero split: if_splits)

lemma memory_set_keeps:
  "memory_set m b' = Inr m' \<Longrightarrow> memory_check m b = Inr True \<Longrightarrow> memory_check m' b = Inr True"
  by (auto simp: memory_set_def memory_check_def Let_def nth_list_update or_and_keeps split: if_splits)

lemma extends_refl: "extends f f"
  by (simp add: extends_def)

lemma extends_trans: "extends f g \<Longrightarrow> extends g h \<Longrightarrow> extends f h"
  by (simp add: extends_def)

lemma extends_hash_i: "extends f f' \<Longrightarrow> hash_i E f' i d = hash_i E f i d"
  by (simp add: extends_def hash_i_def seeds_at_def)

lemma extends_count: "extends f (f\<lparr>element_count := c\<rparr>)"
  by (simp add: extends_def)

lemma extends_set: "memory_set (mem f) b = Inr m' \<Longrightarrow> extends f (f\<lparr>mem := m'\<rparr>)"
  by (auto simp: extends_def dest: memory_set_shape memory_set_keeps)

lemma might_contain_loop_True:
  "might_contain_loop E f d js = Inr True \<longleftrightarrow>
     (\<forall>i\<in>set js. \<exists>b. hash_i E f (of_nat i) d = Inr b \<and> memory_check (mem f) b = Inr True)"
  by (induction js) (auto split: sum.splits)

lemma extends_might_contain_loop:
  "extends f f' \<Longrightarrow> might_contain_loop E f d js = Inr True \<Longrightarrow> might_contain_loop E f' d js = Inr True"
  unfolding might_contain_loop_True by (auto simp: extends_hash_i) (auto simp: extends_def)

lemma extends_might_contain:
  "extends f f' \<Longrightarrow> might_contain E f d = Inr True \<Longrightarrow> might_contain E f' d = Inr True"
  unfolding might_contain_def using extends_might_contain_loop [of f f'] by (simp add: extends_def)

lemma insert_new_loop_extends: "extends f (fst (insert_new_loop E f d js))"
proof (induction js arbitrary: f)
  case Nil
  then show ?case by (simp add: extends_refl)
next
  case (Cons i js)
  show ?case
  proof (cases "hash_i E f (of_nat i) d")
    case (Inl e)
    then show ?thesis by (simp add: extends_refl)
  next
    case (Inr b)
    show ?thesis
    proof (cases "memory_set (mem f) b")
      case (Inl e)
      with Inr show ?thesis by (simp add: extends_refl)
    next
      case Inr2: (Inr m')
      from Inr Inr2 Cons.IH [of "f\<lparr>mem := m'\<rparr>"] extends_set [OF Inr2]
      show ?thesis by (auto intro: extends_trans)
    qed
  qed
qed

lemma insert_new_loop_sets:
  "insert_new_loop E f d js = (f', Inr u) \<Longrightarrow> might_contain_loop E f' d js = Inr True"
proof (induction js arbitrary: f)
  case Nil
  then show ?case by simp
next
  case (Cons i js)
  from Cons.prems obtain b m' where
    h: "hash_i E f (of_nat i) d = Inr b" and s: "memory_set (mem f) b = Inr m'"
    and rest: "insert_new_loop E (f\<lparr>mem := m'\<rparr>) d js = (f', Inr u)"
    by (auto split: sum.splits)
  have tail: "might_contain_loop E f' d js = Inr True"
    by (rule Cons.IH [OF rest])
  have e1: "extends f (f\<lparr>mem := m'\<rparr>)" by (rule extends_set [OF s])
  have e2: "extends (f\<lparr>mem := m'\<rparr>) f'"
    using insert_new_loop_extends [of "f\<lparr>mem := m'\<rparr>" E d js] rest by simp
  have "memory_check (mem (f\<lparr>mem := m'\<rparr>)) b = Inr True"
    using memory_set_sets [OF s] by simp
  with e2 have c: "memory_check (mem f') b = Inr True"
    by (simp add: extends_def)
  have "hash_i E f' (of_nat i) d = Inr b"
    using extends_hash_i [OF extends_trans [OF e1 e2]] h by simp
  with c tail show ?case by simp
qed

lemma memory_check_set_Inr:
  "memory_check_set m b = Inr (old, m') \<Longrightarrow> memory_set m b = Inr m'"
  by (auto simp: memory_check_set_def split: sum.splits)

lemma insert_loop_extends: "extends f (fst (static_insert_loop E f d a js))"
proof (induction js arbitrary: f a)
  case Nil
  then show ?case by (simp add: extends_refl)
next
  case (Cons i js)
  show ?case
  proof (cases "hash_i E f (of_nat i) d")
    case (Inl e)
    then show ?thesis by (simp add: extends_refl)
  next
    case (Inr b)
    show ?thesis
    proof (cases "memory_check_set (mem f) b")
      case (Inl e)
      with Inr show ?thesis by (simp add: extends_refl)
    next
      case Inr2: (Inr r)
      obtain old m' where r: "r = (old, m')" by (cases r)
      from Inr Inr2 r Cons.IH [of "f\<lparr>mem := m'\<rparr>"]
        extends_set [OF memory_check_set_Inr [OF Inr2 [unfolded r]]]
      show ?thesis by (auto intro: extends_trans)
    qed
  qed
qed

lemma insert_loop_sets:
  "static_insert_loop E f d a js = (f', Inr r) \<Longrightarrow> might_contain_loop E f' d js = Inr True"
proof (induction js arbitrary: f a)
  case Nil
  then show ?case by simp
next
  case (Cons i js)
  from Cons.prems obtain b old m' where
    h: "hash_i E f (of_nat i) d = Inr b" and cs: "memory_check_set (mem f) b = Inr (old, m')"
    and rest: "static_insert_loop E (f\<lparr>mem := m'\<rparr>) d (old \<and> a) js = (f', Inr r)"
    by (auto split: sum.splits)
  have s: "memory_set (mem f) b = Inr m'" by (rule memory_check_set_Inr [OF cs])
  have tail: "might_contain_loop E f' d js = Inr True"
    by (rule Cons.IH [OF rest])
  have e1: "extends f (f\<lparr>mem := m'\<rparr>)" by (rule extends_set [OF s])
  have e2: "extends (f\<lparr>mem := m'\<rparr>) f'"
    using insert_loop_extends [of "f\<lparr>mem := m'\<rparr>" E d "old \<and> a" js] rest by simp
  have "memory_check (mem (f\<lparr>mem := m'\<rparr>)) b = Inr True"
    using memory_set_sets [OF s] by simp
  with e2 have c: "memory_check (mem f') b = Inr True"
    by (simp add: extends_def)
  have "hash_i E f' (of_nat i) d = Inr b"
    using extends_hash_i [OF extends_trans [OF e1 e2]] h by simp
  with c tail show ?case by simp
qed

lemma static_insert_extends: "extends f (fst (static_insert E f d))"
proof -
  obtain f' r where l: "static_insert_loop E f d True [0..<unat (slices (mem f))] = (f', r)"
    by (cases "static_insert_loop E f d True [0..<unat (slices (mem f))]")
  have "extends f f'" using insert_loop_extends [of f E d True "[0..<unat (slices (mem f))]"] l by simp
  moreover have "extends f' (f'\<lparr>element_count := element_count f' + 1\<rparr>)" by (rule extends_count)
  ultimately show ?thesis
    by (auto simp: static_insert_def l split: sum.splits intro: extends_trans)
qed

lemma static_insert_sets:
  assumes "snd (static_insert E f d) = Inr b"
  shows "might_contain E (fst (static_insert E f d)) d = Inr True"
proof -
  obtain f' r where l: "static_insert_loop E f d True [0..<unat (slices (mem f))] = (f', r)"
    by (cases "static_insert_loop E f d True [0..<unat (slices (mem f))]")
  with assms obtain a where r: "r = Inr a"
    by (cases r) (auto simp: static_insert_def)
  have sl: "slices (mem f') = slices (mem f)"
    using insert_loop_extends [of f E d True "[0..<unat (slices (mem f))]"] l by (simp add: extends_def)
  have m: "might_contain E f' d = Inr True"
    using insert_loop_sets [OF l [unfolded r]] sl by (simp add: might_contain_def)
  have "might_contain E (f'\<lparr>element_count := element_count f' + 1\<rparr>) d = Inr True"
    by (rule extends_might_contain [OF extends_count m])
  with m show ?thesis
    by (simp add: static_insert_def l r)
qed

lemma insert_new_extends: "extends f (fst (insert_new E f d))"
  unfolding insert_new_def
  using insert_new_loop_extends [of "f\<lparr>element_count := element_count f + 1\<rparr>" E d "[0..<unat (slices (mem f))]"]
    extends_count [of f "element_count f + 1"]
  by (auto intro: extends_trans)

lemma insert_new_sets:
  assumes "snd (insert_new E f d) = Inr u"
  shows "might_contain E (fst (insert_new E f d)) d = Inr True"
proof -
  let ?g = "f\<lparr>element_count := element_count f + 1\<rparr>"
  obtain f' where l: "insert_new_loop E ?g d [0..<unat (slices (mem f))] = (f', Inr u)"
    using assms unfolding insert_new_def
    by (cases "insert_new_loop E ?g d [0..<unat (slices (mem f))]") auto
  have "extends ?g f'" using insert_new_loop_extends [of ?g E d "[0..<unat (slices (mem f))]"] l by simp
  then have sl: "slices (mem f') = slices (mem f)" by (simp add: extends_def)
  show ?thesis
    using insert_new_loop_sets [OF l] sl l by (simp add: might_contain_def insert_new_def)
qed

lemma static_step_extends: "extends f (static_step E f op)"
  by (cases op) (simp_all add: static_insert_extends insert_new_extends)

lemma static_run_extends: "extends f (static_run E f ops)"
  unfolding static_run_def
proof (induction ops arbitrary: f)
  case Nil
  then show ?case by (simp add: extends_refl)
next
  case (Cons op ops)
  show ?case
    using Cons.IH [of "static_step E f op"] static_step_extends [of f E op]
    by (auto intro: extends_trans)
qed


lemma smc_append_True:
  "scalable_might_contain_loop E fs x = Inr True \<Longrightarrow> scalable_might_contain_loop E (fs @ gs) x = Inr True"
  by (induction fs) (auto split: sum.splits if_splits)

lemma smc_append_False:
  "scalable_might_contain_loop E fs x = Inr False \<Longrightarrow>
     scalable_might_contain_loop E (fs @ gs) x = scalable_might_contain_loop E gs x"
  by (induction fs) (auto split: sum.splits if_splits)

lemma smc_prefix_False:
  "scalable_might_contain_loop E (fs @ gs) x = Inr False \<Longrightarrow> scalable_might_contain_loop E fs x = Inr False"
  by (induction fs) (auto split: sum.splits if_splits)

lemma smc_butlast_False:
  assumes "fs \<noteq> []" and "scalable_might_contain_loop E fs x = Inr False"
  shows "scalable_might_contain_loop E (butlast fs) x = Inr False"
proof -
  from assms(1) have "fs = butlast fs @ [last fs]" by simp
  with assms(2) have "scalable_might_contain_loop E (butlast fs @ [last fs]) x = Inr False" by simp
  then show ?thesis by (rule smc_prefix_False)
qed

lemma smc_replace_last:
  "fs \<noteq> [] \<Longrightarrow> extends (last fs) f' \<Longrightarrow> scalable_might_contain_loop E fs x = Inr True \<Longrightarrow>
     scalable_might_contain_loop E (butlast fs @ [f']) x = Inr True"
proof (induction fs)
  case Nil
  then show ?case by simp
next
  case (Cons f fs)
  show ?case
  proof (cases "fs = []")
    case True
    with Cons.prems have "might_contain E f x = Inr True" and "extends f f'"
      by (auto split: sum.splits if_splits)
    then have "might_contain E f' x = Inr True" by (metis extends_might_contain)
    with True show ?thesis by simp
  next
    case False
    with Cons show ?thesis by (auto split: sum.splits if_splits)
  qed
qed

lemma insert_back_keeps:
  assumes "scalable_might_contain_loop E (filters s) x = Inr True"
  shows "scalable_might_contain_loop E (filters (fst (insert_back E s d))) x = Inr True"
proof (cases "filters s = []")
  case True
  with assms show ?thesis by (simp add: insert_back_def)
next
  case False
  obtain f' r where n: "insert_new E (last (filters s)) d = (f', r)"
    by (cases "insert_new E (last (filters s)) d")
  have "extends (last (filters s)) f'"
    using insert_new_extends [of "last (filters s)" E d] n by simp
  from smc_replace_last [OF False this assms] n False show ?thesis
    by (cases r) (simp_all add: insert_back_def)
qed

lemma insert_back_hits:
  assumes "snd (insert_back E s d) = Inr b"
    and "scalable_might_contain_loop E (butlast (filters s)) d = Inr False"
  shows "scalable_might_contain_loop E (filters (fst (insert_back E s d))) d = Inr True"
proof -
  from assms(1) have ne: "filters s \<noteq> []"
    by (auto simp: insert_back_def split: if_splits)
  obtain f' r where n: "insert_new E (last (filters s)) d = (f', r)"
    by (cases "insert_new E (last (filters s)) d")
  with assms(1) ne obtain u where r: "r = Inr u"
    by (cases r) (auto simp: insert_back_def)
  have "might_contain E f' d = Inr True"
    using insert_new_sets [of E "last (filters s)" d u] n r by simp
  then have "scalable_might_contain_loop E [f'] d = Inr True" by simp
  with smc_append_False [OF assms(2), of "[f']"] n r ne show ?thesis
    by (simp add: insert_back_def)
qed

lemma scalable_insert_keeps:
  assumes "scalable_might_contain_loop E (filters s) x = Inr True"
  shows "scalable_might_contain_loop E (filters (fst (scalable_insert E s d))) x = Inr True"
proof -
  let ?new = "static_filter_new E
      ((params (last (filters s)))\<lparr>capacity := capacity (params (last (filters s))) * scaling_factor (sparams s),
         target_error_rate := rate_times E (target_error_rate (params (last (filters s)))) (tightening_ratio (sparams s))\<rparr>)"
  have a: "scalable_might_contain_loop E (filters (fst (insert_back E s d))) x = Inr True"
    by (rule insert_back_keeps [OF assms])
  have "scalable_might_contain_loop E (filters (s\<lparr>filters := filters s @ [?new]\<rparr>)) x = Inr True"
    using smc_append_True [OF assms] by simp
  then have b: "scalable_might_contain_loop E
      (filters (fst (insert_back E (s\<lparr>filters := filters s @ [?new]\<rparr>) d))) x = Inr True"
    by (rule insert_back_keeps)
  from assms a b show ?thesis
    by (auto simp: scalable_insert_def Let_def split: sum.splits bool.splits)
qed

lemma scalable_insert_hits:
  assumes "snd (scalable_insert E s d) = Inr b"
  shows "scalable_might_contain_loop E (filters (fst (scalable_insert E s d))) d = Inr True"
proof (cases "scalable_might_contain E s d")
  case (Inl e)
  with assms show ?thesis by (simp add: scalable_insert_def)
next
  case (Inr c)
  show ?thesis
  proof (cases c)
    case True
    with Inr show ?thesis by (simp add: scalable_insert_def scalable_might_contain_def)
  next
    case False
    with Inr have miss: "scalable_might_contain_loop E (filters s) d = Inr False"
      by (simp add: scalable_might_contain_def)
    from assms Inr False have ne: "filters s \<noteq> []"
      by (auto simp: scalable_insert_def split: if_splits)
    let ?new = "static_filter_new E
      ((params (last (filters s)))\<lparr>capacity := capacity (params (last (filters s))) * scaling_factor (sparams s),
         target_error_rate := rate_times E (target_error_rate (params (last (filters s)))) (tightening_ratio (sparams s))\<rparr>)"
    let ?s' = "s\<lparr>filters := filters s @ [?new]\<rparr>"
    show ?thesis
    proof (cases "good (last (filters s))")
      case True
      with Inr False ne have eq: "scalable_insert E s d = insert_back E s d"
        by (simp add: scalable_insert_def)
      from insert_back_hits [of E s d b] assms eq smc_butlast_False [OF ne miss]
      show ?thesis by simp
    next
      case ng: False
      with Inr False ne have eq: "scalable_insert E s d = insert_back E ?s' d"
        by (simp add: scalable_insert_def Let_def)
      have "scalable_might_contain_loop E (butlast (filters ?s')) d = Inr False"
        using miss by simp
      from insert_back_hits [of E ?s' d b] assms eq this
      show ?thesis by simp
    qed
  qed
qed

lemma scalable_run_keeps:
  "scalable_might_contain_loop E (filters s) x = Inr True \<Longrightarrow>
     scalable_might_contain_loop E (filters (scalable_run E s ds)) x = Inr True"
  unfolding scalable_run_def
proof (induction ds arbitrary: s)
  case Nil
  then show ?case by simp
next
  case (Cons d ds)
  from Cons.IH [OF scalable_insert_keeps [OF Cons.prems, of d]] show ?case by simp
qed


text \<open>Claim C7. For the static and the scalable Bloom filter alike: once \<open>insert x\<close> (or
  \<open>insert_new x\<close> on the static filter) has returned, \<open>might_contain x\<close> returns true
  after any further sequence of insertions, whatever their outcome and however many
  sub-filters the scalable filter has grown.\<close>

theorem bloom_inserted_tests_positive:
  "(snd (static_insert E f x) = Inr b \<longrightarrow>
      might_contain E (static_run E (fst (static_insert E f x)) ops) x = Inr True) \<and>
   (snd (insert_new E f x) = Inr u \<longrightarrow>
      might_contain E (static_run E (fst (insert_new E f x)) ops) x = Inr True) \<and>
   (snd (scalable_insert E s y) = Inr b' \<longrightarrow>
      scalable_might_contain E (scalable_run E (fst (scalable_insert E s y)) ys) y = Inr True)"
proof (intro conjI impI)
  assume "snd (static_insert E f x) = Inr b"
  then have "might_contain E (fst (static_insert E f x)) x = Inr True"
    by (rule static_insert_sets)
  with static_run_extends show "might_contain E (static_run E (fst (static_insert E f x)) ops) x = Inr True"
    by (rule extends_might_contain)
next
  assume "snd (insert_new E f x) = Inr u"
  then have "might_contain E (fst (insert_new E f x)) x = Inr True"
    by (rule insert_new_sets)
  with static_run_extends show "might_contain E (static_run E (fst (insert_new E f x)) ops) x = Inr True"
    by (rule extends_might_contain)
next
  assume "snd (scalable_insert E s y) = Inr b'"
  then have "scalable_might_contain_loop E (filters (fst (scalable_insert E s y))) y = Inr True"
    by (rule scalable_insert_hits)
  then show "scalable_might_contain E (scalable_run E (fst (scalable_insert E s y)) ys) y = Inr True"
    unfolding scalable_might_contain_def by (rule scalable_run_keeps)
qed

theorem bloom_inserted_tests_positive_witness:
  "snd (static_insert demo_env (static_filter_new demo_env (parameters.truncate demo_params)) [1, 2]) = Inr False \<and>
   might_contain demo_env
     (static_run demo_env
        (fst (static_insert demo_env (static_filter_new demo_env (parameters.truncate demo_params)) [1, 2]))
        [Insert [3], Insert_new [4, 5]]) [1, 2] = Inr True \<and>
   snd (insert_new demo_env (static_filter_new demo_env (parameters.truncate demo_params)) [1, 2]) = Inr () \<and>
   might_contain demo_env
     (static_run demo_env
        (fst (insert_new demo_env (static_filter_new demo_env (parameters.truncate demo_params)) [1, 2]))
        [Insert [3], Insert_new [4, 5]]) [1, 2] = Inr True \<and>
   snd (scalable_insert demo_env (scalable_filter_new demo_env demo_params) [1]) = Inr False \<and>
   scalable_might_contain demo_env
     (scalable_run demo_env
        (fst (scalable_insert demo_env (scalable_filter_new demo_env demo_params) [1]))
        [[2], [3], [9], [5]]) [1] = Inr True"
proof -
  have h1: "snd (static_insert demo_env (static_filter_new demo_env (parameters.truncate demo_params)) [1, 2]) = Inr False"
    by code_simp
  have h2: "snd (insert_new demo_env (static_filter_new demo_env (parameters.truncate demo_params)) [1, 2]) = Inr ()"
    by code_simp
  have h3: "snd (scalable_insert demo_env (scalable_filter_new demo_env demo_params) [1]) = Inr False"
    by code_simp
  from h1 h2 h3
    bloom_inserted_tests_positive [of demo_env
      "static_filter_new demo_env (parameters.truncate demo_params)" "[1, 2]" False
      "[Insert [3], Insert_new [4, 5]]" "()"
      "scalable_filter_new demo_env demo_params" "[1]" False "[[2], [3], [9], [5]]"]
  show ?thesis by blast
qed

lemma scalable_count_fold:
  "fold (\<lambda>f c. c + (if static_count f then 1 else 0)) fs (a :: size_t) =
     a + of_nat (length (filter (\<lambda>f. element_count f \<noteq> 0) fs))"
  by (induction fs arbitrary: a) (simp_all add: static_count_def)

text \<open>Claim C10. \<open>scalable_filter::count()\<close> is the number of sub-filters that hold at least
  one element (each contributes at most 1, \<open>static_filter::count()\<close> being a \<open>bool\<close>); so
  with a single sub-filter that holds two or more elements it returns 1, not the number of
  elements.\<close>

theorem scalable_count_counts_filters:
  "scalable_count s = of_nat (length (filter (\<lambda>f. element_count f \<noteq> 0) (filters s))) \<and>
   (filters s = [f] \<longrightarrow> 2 \<le> element_count f \<longrightarrow>
      scalable_count s = 1 \<and> scalable_count s \<noteq> element_count f)"
proof -
  have a: "scalable_count s = of_nat (length (filter (\<lambda>f. element_count f \<noteq> 0) (filters s)))"
    by (simp add: scalable_count_def scalable_count_fold)
  have b: "scalable_count s = 1 \<and> scalable_count s \<noteq> element_count f"
    if "filters s = [f]" and "2 \<le> element_count f"
  proof -
    from that(2) have "element_count f \<noteq> 0" and "element_count f \<noteq> 1"
      by (auto simp: word_le_nat_alt)
    with that(1) a show ?thesis by auto
  qed
  from a b show ?thesis by blast
qed

theorem scalable_count_counts_filters_witness:
  "filters (scalable_run demo_env (scalable_filter_new demo_env demo_params) [[1], [2]])
     = [last (filters (scalable_run demo_env (scalable_filter_new demo_env demo_params) [[1], [2]]))] \<and>
   element_count (last (filters (scalable_run demo_env (scalable_filter_new demo_env demo_params) [[1], [2]]))) = 2 \<and>
   scalable_count (scalable_run demo_env (scalable_filter_new demo_env demo_params) [[1], [2]]) = 1"
proof -
  let ?s = "scalable_run demo_env (scalable_filter_new demo_env demo_params) [[1], [2]]"
  have "length (filters ?s) = 1" by code_simp
  then have h1: "filters ?s = [last (filters ?s)]"
    by (cases "filters ?s") simp_all
  have h2: "element_count (last (filters ?s)) = 2" by code_simp
  have h3: "2 \<le> element_count (last (filters ?s))" by (simp add: h2)
  from h1 h3 scalable_count_counts_filters [of ?s "last (filters ?s)"]
  have "scalable_count ?s = 1" by blast
  with h1 h2 show ?thesis by blast
qed

section \<open>Proofs: memtable\<close>

lemma sv_compare_less: "sv_compare a b < 0 \<longleftrightarrow> a < b"
  by (induction a b rule: sv_compare.induct) auto

lemma sv_compare_eq: "sv_compare a b = 0 \<longleftrightarrow> a = b"
  by (induction a b rule: sv_compare.induct) auto

lemma sv_compare_greater: "\<not> sv_compare a b < 0 \<Longrightarrow> sv_compare a b \<noteq> 0 \<Longrightarrow> b < a"
  using sv_compare_less [of a b] sv_compare_eq [of a b] by auto

lemma path_append: "path h l p (as @ bs) q \<longleftrightarrow> (\<exists>m. path h l p as m \<and> path h l m bs q)"
  by (induction as arbitrary: p) auto

lemma path_cong:
  "path h l p as q \<Longrightarrow> \<forall>n \<in> set as. n < length h' \<and> nxt (h' ! n) ! l = nxt (h ! n) ! l \<Longrightarrow>
     path h' l p as q"
  by (induction as arbitrary: p) auto

lemma path_bound: "path h l p as q \<Longrightarrow> \<forall>n \<in> set as. n < length h"
  by (induction as arbitrary: p) auto

lemma chain_unique: "chain h l p as \<Longrightarrow> chain h l p bs \<Longrightarrow> as = bs"
  unfolding chain_def
proof (induction as arbitrary: p bs)
  case Nil
  then show ?case by (cases bs) auto
next
  case (Cons a as)
  then show ?case by (cases bs) auto
qed

lemma chain_split:
  "chain h l p c \<Longrightarrow> n \<in> set c \<Longrightarrow>
     \<exists>pre suf. c = pre @ suf \<and> pre \<noteq> [] \<and> last pre = n \<and> chain h l (nxt (h ! n) ! l) suf"
  unfolding chain_def
proof (induction c arbitrary: p)
  case Nil
  then show ?case by simp
next
  case (Cons a c)
  show ?case
  proof (cases "n = a")
    case True
    with Cons.prems have "a # c = [a] @ c \<and> [a] \<noteq> [] \<and> last [a] = n \<and> path h l (nxt (h ! n) ! l) c None"
      by simp
    then show ?thesis by blast
  next
    case False
    with Cons.prems have "n \<in> set c" and "path h l (nxt (h ! a) ! l) c None" by auto
    from Cons.IH [OF this(2) this(1)] obtain pre suf where
      "c = pre @ suf" "pre \<noteq> []" "last pre = n" "path h l (nxt (h ! n) ! l) suf None" by blast
    then have "a # c = (a # pre) @ suf \<and> a # pre \<noteq> [] \<and> last (a # pre) = n \<and>
       path h l (nxt (h ! n) ! l) suf None" by simp
    then show ?thesis by blast
  qed
qed

lemma chain_distinct: "chain h l p c \<Longrightarrow> distinct c"
proof (induction c arbitrary: p)
  case Nil
  then show ?case by simp
next
  case (Cons a c)
  then have tl: "chain h l (nxt (h ! a) ! l) c" by (simp add: chain_def)
  have "a \<notin> set c"
  proof
    assume "a \<in> set c"
    from chain_split [OF tl this] obtain pre suf where
      c: "c = pre @ suf" and "pre \<noteq> []" and "chain h l (nxt (h ! a) ! l) suf" by blast
    with tl have "c = suf" by (auto dest: chain_unique)
    with c \<open>pre \<noteq> []\<close> show False by simp
  qed
  with Cons.IH [OF tl] show ?case by simp
qed

lemma gapI:
  "c = pre @ suf \<Longrightarrow> at_end p pre \<Longrightarrow> s = nxt (h ! p) ! l \<Longrightarrow> chain h l s suf \<Longrightarrow>
     p = 0 \<or> key (h ! p) < k \<Longrightarrow> (\<forall>m. s = Some m \<longrightarrow> k < key (h ! m)) \<Longrightarrow>
     gap h k c l (Some p) s"
  unfolding gap_def by blast

lemma scan_level_chain:
  assumes "chain h l (nxt (h ! n) ! l) ys" and "at_end n pre" and "n = 0 \<or> key (h ! n) < k"
  shows "\<exists>r. scan_level h k idx l n = Some r \<and>
           (case r of
              Stop p s \<Rightarrow> gap h k (pre @ ys) l (Some p) s
            | Newer n2 \<Rightarrow> n2 \<in> set ys \<and> key (h ! n2) = k \<and> newer (h ! n2) idx
            | Older n2 \<Rightarrow> n2 \<in> set ys \<and> key (h ! n2) = k
            | Same_index \<Rightarrow> (\<exists>n2 \<in> set ys. \<not> newer (h ! n2) idx \<and> \<not> older (h ! n2) idx))"
  using assms
proof (induction ys arbitrary: n pre)
  case Nil
  then have "nxt (h ! n) ! l = None" by (simp add: chain_def)
  moreover from Nil have "gap h k (pre @ []) l (Some n) None"
    by (intro gapI [where pre = pre and suf = "[]"]) (simp_all add: chain_def)
  ultimately show ?case
    by (subst scan_level.simps) (simp add: iterate_def)
next
  case (Cons m ys)
  then have nx: "nxt (h ! n) ! l = Some m" and tl: "chain h l (nxt (h ! m) ! l) ys"
    by (simp_all add: chain_def)
  show ?case
  proof (cases "sv_compare k (key (h ! m)) < 0")
    case True
    then have "k < key (h ! m)" by (simp add: sv_compare_less)
    with Cons.prems nx have "gap h k (pre @ m # ys) l (Some n) (Some m)"
      by (intro gapI [where pre = pre and suf = "m # ys"]) simp_all
    with True nx show ?thesis
      by (subst scan_level.simps) (simp add: iterate_def)
  next
    case False
    show ?thesis
    proof (cases "sv_compare k (key (h ! m)) = 0")
      case True
      then have "key (h ! m) = k" by (simp add: sv_compare_eq)
      with True nx show ?thesis
        by (subst scan_level.simps) (simp add: iterate_def)
    next
      case ne: False
      from False ne have "key (h ! m) < k" by (rule sv_compare_greater)
      moreover have "at_end m (pre @ [m])" by (simp add: at_end_def)
      ultimately obtain r where
        r: "scan_level h k idx l m = Some r" and
        c: "case r of
              Stop p s \<Rightarrow> gap h k ((pre @ [m]) @ ys) l (Some p) s
            | Newer n2 \<Rightarrow> n2 \<in> set ys \<and> key (h ! n2) = k \<and> newer (h ! n2) idx
            | Older n2 \<Rightarrow> n2 \<in> set ys \<and> key (h ! n2) = k
            | Same_index \<Rightarrow> (\<exists>n2 \<in> set ys. \<not> newer (h ! n2) idx \<and> \<not> older (h ! n2) idx)"
        using Cons.IH [OF tl, of "pre @ [m]"] by blast
      have "scan_level h k idx l n = scan_level h k idx l m"
        using False ne nx by (subst scan_level.simps) (simp add: iterate_def)
      with r c show ?thesis by (cases r) auto
    qed
  qed
qed

lemma levels_ok_subset:
  "levels_ok h C \<Longrightarrow> l < MAX_TABLE_LEVELS \<Longrightarrow> set (C l) \<subseteq> set (C 0)"
proof (induction l)
  case 0
  then show ?case by simp
next
  case (Suc l)
  then have "set (C (Suc l)) \<subseteq> set (C l)" by (simp add: levels_ok_def)
  with Suc show ?case by auto
qed

lemma levels_ok_position:
  assumes "levels_ok h C" and "l < MAX_TABLE_LEVELS" and "n = 0 \<or> n \<in> set (C l)"
  shows "\<exists>pre ys. C l = pre @ ys \<and> at_end n pre \<and> chain h l (nxt (h ! n) ! l) ys"
proof (cases "n \<in> set (C l)")
  case True
  from assms(1,2) have "chain h l (nxt (h ! 0) ! l) (C l)" by (simp add: levels_ok_def)
  from chain_split [OF this True] show ?thesis by (auto simp: at_end_def)
next
  case False
  with assms have "n = 0" and "chain h l (nxt (h ! n) ! l) (C l)" by (auto simp: levels_ok_def)
  then have "C l = [] @ C l \<and> at_end n [] \<and> chain h l (nxt (h ! n) ! l) (C l)"
    by (simp add: at_end_def)
  then show ?thesis by blast
qed

lemma gap_member: "gap h k c l (Some p) s \<Longrightarrow> p = 0 \<or> p \<in> set c"
  by (auto simp: gap_def at_end_def)

lemma gap_below: "gap h k c l (Some p) s \<Longrightarrow> p = 0 \<or> key (h ! p) < k"
  by (auto simp: gap_def)

lemma search_levels_ok:
  assumes "levels_ok h C" and "c \<le> MAX_TABLE_LEVELS"
    and "c \<noteq> 0 \<longrightarrow> n = 0 \<or> n \<in> set (C (c - 1))" and "n = 0 \<or> key (h ! n) < k"
    and "length us = MAX_TABLE_LEVELS" and "length uns = MAX_TABLE_LEVELS"
  shows "\<exists>r. search h k idx c n us uns = Some r \<and>
           (case r of
              Inl e \<Rightarrow> e = Assertion_failed \<and>
                (\<exists>n2 \<in> set (C 0). \<not> newer (h ! n2) idx \<and> \<not> older (h ! n2) idx)
            | Inr (Links us' uns') \<Rightarrow>
                (\<forall>j < c. gap h k (C j) j (us' ! j) (uns' ! j))
            | Inr (Found_newer n2) \<Rightarrow> n2 \<in> set (C 0) \<and> key (h ! n2) = k \<and> newer (h ! n2) idx
            | Inr (Found_older n2) \<Rightarrow> n2 \<in> set (C 0) \<and> key (h ! n2) = k)"
proof -
  have "\<exists>r. search h k idx c n us uns = Some r \<and>
           (case r of
              Inl e \<Rightarrow> e = Assertion_failed \<and>
                (\<exists>n2 \<in> set (C 0). \<not> newer (h ! n2) idx \<and> \<not> older (h ! n2) idx)
            | Inr (Links us' uns') \<Rightarrow>
                length us' = MAX_TABLE_LEVELS \<and> length uns' = MAX_TABLE_LEVELS \<and>
                (\<forall>j < c. gap h k (C j) j (us' ! j) (uns' ! j)) \<and>
                (\<forall>j \<ge> c. us' ! j = us ! j \<and> uns' ! j = uns ! j)
            | Inr (Found_newer n2) \<Rightarrow> n2 \<in> set (C 0) \<and> key (h ! n2) = k \<and> newer (h ! n2) idx
            | Inr (Found_older n2) \<Rightarrow> n2 \<in> set (C 0) \<and> key (h ! n2) = k)"
    using assms(2-)
  proof (induction c arbitrary: n us uns)
    case 0
    then show ?case by simp
  next
    case (Suc i)
    then have i: "i < MAX_TABLE_LEVELS" and n: "n = 0 \<or> n \<in> set (C i)" by simp_all
    from levels_ok_position [OF assms(1) i n] obtain pre ys where
      C: "C i = pre @ ys" and e: "at_end n pre" and ch: "chain h i (nxt (h ! n) ! i) ys" by blast
    from scan_level_chain [OF ch e Suc.prems(3), of idx] obtain r where
      r: "scan_level h k idx i n = Some r" and
      c0: "case r of
              Stop p s \<Rightarrow> gap h k (pre @ ys) i (Some p) s
            | Newer n2 \<Rightarrow> n2 \<in> set ys \<and> key (h ! n2) = k \<and> newer (h ! n2) idx
            | Older n2 \<Rightarrow> n2 \<in> set ys \<and> key (h ! n2) = k
            | Same_index \<Rightarrow> (\<exists>n2 \<in> set ys. \<not> newer (h ! n2) idx \<and> \<not> older (h ! n2) idx)" by blast
    then have c: "case r of
              Stop p s \<Rightarrow> gap h k (C i) i (Some p) s
            | Newer n2 \<Rightarrow> n2 \<in> set ys \<and> key (h ! n2) = k \<and> newer (h ! n2) idx
            | Older n2 \<Rightarrow> n2 \<in> set ys \<and> key (h ! n2) = k
            | Same_index \<Rightarrow> (\<exists>n2 \<in> set ys. \<not> newer (h ! n2) idx \<and> \<not> older (h ! n2) idx)" by (cases r) (simp_all add: C)
    have sub: "set ys \<subseteq> set (C 0)"
      using levels_ok_subset [OF assms(1) i] C by auto
    show ?case
    proof (cases r)
      case (Stop p s)
      with c have g: "gap h k (C i) i (Some p) s" by simp
      have p1: "i \<noteq> 0 \<longrightarrow> p = 0 \<or> p \<in> set (C (i - 1))"
      proof
        assume "i \<noteq> 0"
        then obtain i' where i': "i = Suc i'" by (cases i) auto
        with assms(1) i have "set (C i) \<subseteq> set (C i')" by (simp add: levels_ok_def)
        with gap_member [OF g] i' show "p = 0 \<or> p \<in> set (C (i - 1))" by auto
      qed
      from i have i2: "i \<le> MAX_TABLE_LEVELS" by simp
      from Suc.IH [OF i2 p1 gap_below [OF g], of "us[i := Some p]" "uns[i := s]"] Suc.prems
      obtain r' where
        r': "search h k idx i p (us[i := Some p]) (uns[i := s]) = Some r'" and
        c': "case r' of
              Inl e \<Rightarrow> e = Assertion_failed \<and>
                (\<exists>n2 \<in> set (C 0). \<not> newer (h ! n2) idx \<and> \<not> older (h ! n2) idx)
            | Inr (Links us' uns') \<Rightarrow>
                length us' = MAX_TABLE_LEVELS \<and> length uns' = MAX_TABLE_LEVELS \<and>
                (\<forall>j < i. gap h k (C j) j (us' ! j) (uns' ! j)) \<and>
                (\<forall>j \<ge> i. us' ! j = (us[i := Some p]) ! j \<and> uns' ! j = (uns[i := s]) ! j)
            | Inr (Found_newer n2) \<Rightarrow> n2 \<in> set (C 0) \<and> key (h ! n2) = k \<and> newer (h ! n2) idx
            | Inr (Found_older n2) \<Rightarrow> n2 \<in> set (C 0) \<and> key (h ! n2) = k"
        by auto
      have eq: "search h k idx (Suc i) n us uns = Some r'"
        using r Stop r' i by simp
      show ?thesis
      proof (cases r')
        case (Inl e)
        with eq c' show ?thesis by simp
      next
        case (Inr sr)
        show ?thesis
        proof (cases sr)
          case (Links us' uns')
          with Inr c' have
            len: "length us' = MAX_TABLE_LEVELS" "length uns' = MAX_TABLE_LEVELS" and
            low: "\<forall>j < i. gap h k (C j) j (us' ! j) (uns' ! j)" and
            high: "\<forall>j \<ge> i. us' ! j = (us[i := Some p]) ! j \<and> uns' ! j = (uns[i := s]) ! j"
            by simp_all
          from high i Suc.prems have "us' ! i = Some p" and "uns' ! i = s" by simp_all
          with g have gi: "gap h k (C i) i (us' ! i) (uns' ! i)" by simp
          have "\<forall>j < Suc i. gap h k (C j) j (us' ! j) (uns' ! j)"
            using low gi by (auto simp: less_Suc_eq)
          moreover have "\<forall>j \<ge> Suc i. us' ! j = us ! j \<and> uns' ! j = uns ! j"
            using high by auto
          ultimately show ?thesis using eq Inr Links len by simp
        next
          case (Found_newer n2)
          with eq Inr c' show ?thesis by simp
        next
          case (Found_older n2)
          with eq Inr c' show ?thesis by simp
        qed
      qed
    next
      case (Newer n2)
      with r c i sub show ?thesis by auto
    next
      case (Older n2)
      with r c i sub show ?thesis by auto
    next
      case Same_index
      with r c i sub show ?thesis by auto
    qed
  qed
  then obtain r where r: "search h k idx c n us uns = Some r" and
    c: "case r of
              Inl e \<Rightarrow> e = Assertion_failed \<and>
                (\<exists>n2 \<in> set (C 0). \<not> newer (h ! n2) idx \<and> \<not> older (h ! n2) idx)
            | Inr (Links us' uns') \<Rightarrow>
                length us' = MAX_TABLE_LEVELS \<and> length uns' = MAX_TABLE_LEVELS \<and>
                (\<forall>j < c. gap h k (C j) j (us' ! j) (uns' ! j)) \<and>
                (\<forall>j \<ge> c. us' ! j = us ! j \<and> uns' ! j = uns ! j)
            | Inr (Found_newer n2) \<Rightarrow> n2 \<in> set (C 0) \<and> key (h ! n2) = k \<and> newer (h ! n2) idx
            | Inr (Found_older n2) \<Rightarrow> n2 \<in> set (C 0) \<and> key (h ! n2) = k" by blast
  show ?thesis
  proof (cases r)
    case (Inl e)
    with r c show ?thesis by simp
  next
    case (Inr sr)
    with r c show ?thesis by (cases sr) simp_all
  qed
qed

lemma spliced_refl: "spliced h h a us uns {}"
  by (simp add: spliced_def)

lemma spliced_step:
  assumes sp: "spliced h0 h a us uns S" and a: "a < length h0" and i: "i \<notin> S"
    and ia: "i < length (nxt (h0 ! a))"
    and u: "us ! i = Some u" "u < length h0" "u \<noteq> a" "i < length (nxt (h0 ! u))"
  shows "spliced h0 (h[a := link (h ! a) i (uns ! i), u := (h ! u)\<lparr>nxt := (nxt (h ! u))[i := Some a]\<rparr>])
           a us uns (insert i S)"
proof -
  let ?h = "h[a := link (h ! a) i (uns ! i), u := (h ! u)\<lparr>nxt := (nxt (h ! u))[i := Some a]\<rparr>]"
  from sp have len: "length h = length h0" by (simp add: spliced_def)
  have "key (?h ! n) = key (h0 ! n) \<and> record_idx (?h ! n) = record_idx (h0 ! n) \<and>
        length (nxt (?h ! n)) = length (nxt (h0 ! n)) \<and>
        (\<forall>l < length (nxt (h0 ! n)).
           nxt (?h ! n) ! l =
             (if l \<in> insert i S then (if n = a then uns ! l
                              else if us ! l = Some n then Some a
                              else nxt (h0 ! n) ! l)
              else nxt (h0 ! n) ! l))" if n: "n < length h0" for n
  proof -
    from sp n have old: "key (h ! n) = key (h0 ! n)" "record_idx (h ! n) = record_idx (h0 ! n)"
      "length (nxt (h ! n)) = length (nxt (h0 ! n))"
      "\<forall>l < length (nxt (h0 ! n)).
           nxt (h ! n) ! l =
             (if l \<in> S then (if n = a then uns ! l
                              else if us ! l = Some n then Some a
                              else nxt (h0 ! n) ! l)
              else nxt (h0 ! n) ! l)"
      by (simp_all add: spliced_def)
    consider "n = a" | "n = u" | "n \<noteq> a" "n \<noteq> u" using u(3) by blast
    then show ?thesis
    proof cases
      case 1
      with u(3) a len have "?h ! n = link (h ! a) i (uns ! i)" by simp
      with 1 old ia show ?thesis by (auto simp: link_def nth_list_update)
    next
      case 2
      with u len have "?h ! n = (h ! u)\<lparr>nxt := (nxt (h ! u))[i := Some a]\<rparr>" by simp
      with 2 old u show ?thesis by (auto simp: nth_list_update)
    next
      case 3
      then have "?h ! n = h ! n" by simp
      with 3 old u i show ?thesis by auto
    qed
  qed
  with len show ?thesis by (simp add: spliced_def)
qed

lemma splice_spliced:
  assumes "spliced h0 h a us uns S" and "a < length h0" and "distinct js" and "set js \<inter> S = {}"
    and "\<forall>i \<in> set js. i < length (nxt (h0 ! a)) \<and>
           (\<exists>u. us ! i = Some u \<and> u < length h0 \<and> u \<noteq> a \<and> i < length (nxt (h0 ! u)) \<and>
                nxt (h0 ! u) ! i = uns ! i)"
  shows "\<exists>h'. splice h a us uns js = Inr (True, h') \<and> spliced h0 h' a us uns (S \<union> set js)"
  using assms
proof (induction js arbitrary: h S)
  case Nil
  then show ?case by simp
next
  case (Cons i js)
  from Cons.prems obtain u where
    ia: "i < length (nxt (h0 ! a))" and u: "us ! i = Some u" "u < length h0" "u \<noteq> a"
      "i < length (nxt (h0 ! u))" and nx: "nxt (h0 ! u) ! i = uns ! i"
    by auto
  from Cons.prems have i: "i \<notin> S" by auto
  let ?h1 = "h[a := link (h ! a) i (uns ! i)]"
  let ?h2 = "?h1[u := (h ! u)\<lparr>nxt := (nxt (h ! u))[i := Some a]\<rparr>]"
  from Cons.prems(1) u i nx have cur: "nxt (h ! u) ! i = uns ! i"
    by (simp add: spliced_def)
  from u have hu: "?h1 ! u = h ! u" by simp
  have ce: "CE_link (?h1 ! u) i (uns ! i) (Some a) = (True, (h ! u)\<lparr>nxt := (nxt (h ! u))[i := Some a]\<rparr>)"
    by (simp add: hu CE_link_def cur)
  have step: "splice h a us uns (i # js) = splice ?h2 a us uns js"
    by (simp add: u Let_def ce)
  have sp: "spliced h0 ?h2 a us uns (insert i S)"
    by (rule spliced_step [OF Cons.prems(1,2) i ia u])
  from Cons.prems have rest: "distinct js" "set js \<inter> insert i S = {}"
    "\<forall>i \<in> set js. i < length (nxt (h0 ! a)) \<and>
           (\<exists>u. us ! i = Some u \<and> u < length h0 \<and> u \<noteq> a \<and> i < length (nxt (h0 ! u)) \<and>
                nxt (h0 ! u) ! i = uns ! i)"
    by auto
  from Cons.IH [OF sp Cons.prems(2) rest] step show ?case by simp
qed

lemma chain_keep:
  "chain h l p c \<Longrightarrow> \<forall>n \<in> set c. n < length h' \<and> nxt (h' ! n) ! l = nxt (h ! n) ! l \<Longrightarrow>
     chain h' l p c"
  unfolding chain_def by (rule path_cong)

lemma chain_insert:
  assumes c: "chain h l (nxt (h ! 0) ! l) (pre @ suf)" and z: "0 \<notin> set (pre @ suf)"
    and e: "at_end u pre" and ne: "h \<noteq> []"
    and an: "a \<notin> set (pre @ suf)" "a \<noteq> 0" "a < length h'" and len: "length h \<le> length h'"
    and hu: "nxt (h' ! u) ! l = Some a" and ha: "nxt (h' ! a) ! l = nxt (h ! u) ! l"
    and same: "\<forall>n < length h. n \<noteq> u \<longrightarrow> n \<noteq> a \<longrightarrow> nxt (h' ! n) ! l = nxt (h ! n) ! l"
  shows "chain h' l (nxt (h' ! 0) ! l) (pre @ a # suf)"
proof -
  from c obtain m where p1: "path h l (nxt (h ! 0) ! l) pre m" and p2: "path h l m suf None"
    by (auto simp: chain_def path_append)
  from c have d: "distinct (pre @ suf)" by (rule chain_distinct)
  from c have b: "\<forall>n \<in> set (pre @ suf). n < length h"
    unfolding chain_def by (rule path_bound)
  have u_suf: "u \<notin> set suf"
  proof (cases "pre = []")
    case True
    with e z show ?thesis by (simp add: at_end_def)
  next
    case False
    with e have "u \<in> set pre" by (auto simp: at_end_def)
    with d show ?thesis by auto
  qed
  have m: "m = nxt (h ! u) ! l"
  proof (cases "pre = []")
    case True
    with e p1 show ?thesis by (simp add: at_end_def)
  next
    case False
    with e have "pre = butlast pre @ [u]" by (auto simp: at_end_def)
    with p1 have "path h l (nxt (h ! 0) ! l) (butlast pre @ [u]) m" by simp
    then show ?thesis by (auto simp: path_append)
  qed
  have "path h' l m suf None"
  proof (rule path_cong [OF p2], intro ballI)
    fix n assume n: "n \<in> set suf"
    with b have nh: "n < length h" by simp
    with len have "n < length h'" by simp
    moreover note nh
    moreover from n u_suf an have "n \<noteq> u" "n \<noteq> a" by auto
    ultimately show "n < length h' \<and> nxt (h' ! n) ! l = nxt (h ! n) ! l"
      using same by simp
  qed
  with an ha m have tail: "path h' l (Some a) (a # suf) None" by simp
  have front: "path h' l (nxt (h' ! 0) ! l) pre (Some a)"
  proof (cases "pre = []")
    case True
    with e hu show ?thesis by (simp add: at_end_def)
  next
    case False
    with e have pre: "pre = butlast pre @ [u]" by (auto simp: at_end_def)
    then have "u \<in> set pre" by (metis in_set_conv_decomp)
    with z b have u0: "u \<noteq> 0" and ul: "u < length h" by auto
    from pre d have ub: "u \<notin> set (butlast pre)"
      by (metis distinct_append disjoint_iff list.set_intros(1))
    from p1 pre have "path h l (nxt (h ! 0) ! l) (butlast pre @ [u]) m" by simp
    then have q: "path h l (nxt (h ! 0) ! l) (butlast pre) (Some u)"
      by (auto simp: path_append)
    have "path h' l (nxt (h ! 0) ! l) (butlast pre) (Some u)"
    proof (rule path_cong [OF q], intro ballI)
      fix n assume n: "n \<in> set (butlast pre)"
      then have "n \<in> set pre" by (rule in_set_butlastD)
      with b an have nh: "n < length h" and "n \<noteq> a" by auto
      moreover from nh len have "n < length h'" by simp
      moreover from n ub have "n \<noteq> u" by auto
      ultimately show "n < length h' \<and> nxt (h' ! n) ! l = nxt (h ! n) ! l"
        using same by simp
    qed
    moreover from ne u0 an same have "nxt (h' ! 0) ! l = nxt (h ! 0) ! l" by simp
    moreover from ul len hu have "path h' l (Some u) [u] (Some a)" by simp
    ultimately have "path h' l (nxt (h' ! 0) ! l) (butlast pre @ [u]) (Some a)"
      by (auto simp: path_append)
    with pre show ?thesis by simp
  qed
  from front tail show ?thesis
    unfolding chain_def path_append by blast
qed

lemma sorted_pre_below:
  fixes k :: bytes
  assumes "sorted_wrt (<) (map f pre)" and "pre \<noteq> []" and "f (last pre) < k"
  shows "\<forall>x \<in> set pre. f x < k"
proof
  fix x assume x: "x \<in> set pre"
  from assms(2) have pre: "pre = butlast pre @ [last pre]" by simp
  with assms(1) have "sorted_wrt (<) (map f (butlast pre @ [last pre]))" by simp
  then have "\<forall>y \<in> set (butlast pre). f y < f (last pre)"
    by (simp add: sorted_wrt_append)
  moreover from x pre have "x = last pre \<or> x \<in> set (butlast pre)"
    by (metis Un_iff empty_iff insert_iff list.set(1) list.set(2) set_append)
  ultimately show "f x < k" using assms(3) by auto
qed

lemma sorted_suf_above:
  fixes k :: bytes
  assumes "sorted_wrt (<) (map f (m # suf))" and "k < f m"
  shows "\<forall>y \<in> set (m # suf). k < f y"
  using assms by auto

lemma at_end_member: "at_end p pre \<Longrightarrow> p = 0 \<or> p \<in> set pre"
  by (metis at_end_def last_in_set)

lemma splice_levels_ok:
  assumes ok: "levels_ok h C" and lv: "level < MAX_TABLE_LEVELS"
    and gaps: "\<forall>j < Suc level. gap h k (C j) j (us ! j) (uns ! j)"
    and sp: "spliced h h' a us uns {..level}"
    and a: "a < length h" "a \<noteq> 0" "\<forall>l < MAX_TABLE_LEVELS. a \<notin> set (C l)" "key (h ! a) = k"
  shows "\<exists>C'. levels_ok h' C' \<and>
           set (map (\<lambda>n. key (h' ! n)) (C' 0)) = insert k (set (map (\<lambda>n. key (h ! n)) (C 0)))"
proof -
  have ex: "\<forall>j \<in> {..level}. \<exists>y. us ! j = Some (fst y) \<and> C j = fst (snd y) @ snd (snd y) \<and>
      at_end (fst y) (fst (snd y)) \<and> uns ! j = nxt (h ! fst y) ! j \<and>
      chain h j (uns ! j) (snd (snd y)) \<and> (fst y = 0 \<or> key (h ! fst y) < k) \<and>
      (\<forall>m. uns ! j = Some m \<longrightarrow> k < key (h ! m))"
  proof
    fix j assume "j \<in> {..level}"
    with gaps have "gap h k (C j) j (us ! j) (uns ! j)" by simp
    then obtain p pre suf where "us ! j = Some p" "C j = pre @ suf" "at_end p pre"
      "uns ! j = nxt (h ! p) ! j" "chain h j (uns ! j) suf" "p = 0 \<or> key (h ! p) < k"
      "\<forall>m. uns ! j = Some m \<longrightarrow> k < key (h ! m)"
      unfolding gap_def by blast
    then have "us ! j = Some (fst (p, pre, suf)) \<and> C j = fst (snd (p, pre, suf)) @ snd (snd (p, pre, suf)) \<and>
      at_end (fst (p, pre, suf)) (fst (snd (p, pre, suf))) \<and> uns ! j = nxt (h ! fst (p, pre, suf)) ! j \<and>
      chain h j (uns ! j) (snd (snd (p, pre, suf))) \<and>
      (fst (p, pre, suf) = 0 \<or> key (h ! fst (p, pre, suf)) < k) \<and>
      (\<forall>m. uns ! j = Some m \<longrightarrow> k < key (h ! m))" by simp
    then show "\<exists>y. us ! j = Some (fst y) \<and> C j = fst (snd y) @ snd (snd y) \<and>
      at_end (fst y) (fst (snd y)) \<and> uns ! j = nxt (h ! fst y) ! j \<and>
      chain h j (uns ! j) (snd (snd y)) \<and> (fst y = 0 \<or> key (h ! fst y) < k) \<and>
      (\<forall>m. uns ! j = Some m \<longrightarrow> k < key (h ! m))" by (rule exI)
  qed
  from bchoice [OF ex] obtain f where f: "\<forall>j \<in> {..level}. us ! j = Some (fst (f j)) \<and>
      C j = fst (snd (f j)) @ snd (snd (f j)) \<and>
      at_end (fst (f j)) (fst (snd (f j))) \<and> uns ! j = nxt (h ! fst (f j)) ! j \<and>
      chain h j (uns ! j) (snd (snd (f j))) \<and> (fst (f j) = 0 \<or> key (h ! fst (f j)) < k) \<and>
      (\<forall>m. uns ! j = Some m \<longrightarrow> k < key (h ! m))" ..
  define U where "U j = fst (f j)" for j
  define PRE where "PRE j = fst (snd (f j))" for j
  define SUF where "SUF j = snd (snd (f j))" for j
  have F: "us ! j = Some (U j)" "C j = PRE j @ SUF j" "at_end (U j) (PRE j)"
    "uns ! j = nxt (h ! U j) ! j" "chain h j (uns ! j) (SUF j)" "U j = 0 \<or> key (h ! U j) < k"
    "\<forall>m. uns ! j = Some m \<longrightarrow> k < key (h ! m)" if "j \<le> level" for j
    using bspec [OF f, of j] that unfolding U_def PRE_def SUF_def by blast+
  define C' where "C' j = (if j \<le> level then PRE j @ a # SUF j else C j)" for j
  from ok have ne: "h \<noteq> []" and nl: "\<forall>n < length h. length (nxt (h ! n)) = MAX_TABLE_LEVELS"
    and ch: "\<forall>l < MAX_TABLE_LEVELS. chain h l (nxt (h ! 0) ! l) (C l) \<and> 0 \<notin> set (C l)"
    and nest: "\<forall>l. Suc l < MAX_TABLE_LEVELS \<longrightarrow> set (C (Suc l)) \<subseteq> set (C l)"
    and srt: "sorted_wrt (<) (map (\<lambda>n. key (h ! n)) (C 0))"
    by (simp_all add: levels_ok_def)
  from sp have len: "length h' = length h" and keys: "\<forall>n < length h. key (h' ! n) = key (h ! n)"
    and nl': "\<forall>n < length h. length (nxt (h' ! n)) = length (nxt (h ! n))"
    and lk: "\<forall>n < length h. \<forall>l < length (nxt (h ! n)).
           nxt (h' ! n) ! l =
             (if l \<in> {..level} then (if n = a then uns ! l
                              else if us ! l = Some n then Some a
                              else nxt (h ! n) ! l)
              else nxt (h ! n) ! l)"
    by (simp_all add: spliced_def)
  have bound: "\<forall>n \<in> set (C l). n < length h" if "l < MAX_TABLE_LEVELS" for l
    using ch that path_bound [of h l "nxt (h ! 0) ! l" "C l" None] by (simp add: chain_def)
  have U_in: "U j = 0 \<or> U j \<in> set (C j)" if "j \<le> level" for j
    using F(2) [OF that] at_end_member [OF F(3) [OF that]] by auto
  have U_ne_a: "U j \<noteq> a" if "j \<le> level" for j
    using U_in [OF that] a(2,3) that lv by auto
  have U_lt: "U j < length h" if "j \<le> level" for j
    using U_in [OF that] bound [of j] ne that lv by auto
  have c1: "chain h' l (nxt (h' ! 0) ! l) (C' l) \<and> 0 \<notin> set (C' l)" if l: "l < MAX_TABLE_LEVELS" for l
  proof (cases "l \<le> level")
    case True
    from ch l F(2) [OF True] have c0: "chain h l (nxt (h ! 0) ! l) (PRE l @ SUF l)"
      and z0: "0 \<notin> set (PRE l @ SUF l)" by auto
    from a(3) l F(2) [OF True] have a0: "a \<notin> set (PRE l @ SUF l)" by auto
    have "chain h' l (nxt (h' ! 0) ! l) (PRE l @ a # SUF l)"
    proof (rule chain_insert [where h = h and u = "U l", OF c0 z0 F(3) [OF True] ne a0 a(2)])
      show "a < length h'" using a(1) len by simp
      show "length h \<le> length h'" using len by simp
      show "nxt (h' ! U l) ! l = Some a"
        using lk U_lt [OF True] U_ne_a [OF True] F(1) [OF True] nl l True by simp
      show "nxt (h' ! a) ! l = nxt (h ! U l) ! l"
        using lk a(1) nl l True F(4) [OF True] by simp
      show "\<forall>n < length h. n \<noteq> U l \<longrightarrow> n \<noteq> a \<longrightarrow> nxt (h' ! n) ! l = nxt (h ! n) ! l"
        using lk nl l True F(1) [OF True] by simp
    qed
    with z0 a(2) True show ?thesis by (simp add: C'_def)
  next
    case False
    have "\<forall>n \<in> set (C l). n < length h' \<and> nxt (h' ! n) ! l = nxt (h ! n) ! l"
    proof
      fix n assume "n \<in> set (C l)"
      with bound [OF l] have "n < length h" by simp
      with lk nl l False len show "n < length h' \<and> nxt (h' ! n) ! l = nxt (h ! n) ! l" by simp
    qed
    moreover have "chain h l (nxt (h ! 0) ! l) (C l)" using ch l by simp
    ultimately have "chain h' l (nxt (h ! 0) ! l) (C l)"
      by (rule chain_keep [rotated])
    moreover from lk nl l False ne have "nxt (h' ! 0) ! l = nxt (h ! 0) ! l" by simp
    ultimately show ?thesis using ch l False by (simp add: C'_def)
  qed
  have c2: "set (C' (Suc l)) \<subseteq> set (C' l)" if l: "Suc l < MAX_TABLE_LEVELS" for l
  proof -
    from nest l have sub: "set (C (Suc l)) \<subseteq> set (C l)" by simp
    consider "Suc l \<le> level" | "l \<le> level" "\<not> Suc l \<le> level" | "\<not> l \<le> level" by linarith
    then show ?thesis
    proof cases
      case 1
      then have 2: "l \<le> level" by simp
      from sub F(2) [OF 1] F(2) [OF 2] have "set (PRE (Suc l) @ SUF (Suc l)) \<subseteq> set (PRE l @ SUF l)"
        by simp
      with 1 2 show ?thesis by (auto simp: C'_def)
    next
      case 2
      from sub F(2) [OF 2(1)] have "set (C (Suc l)) \<subseteq> set (PRE l @ SUF l)" by simp
      with 2 show ?thesis by (auto simp: C'_def)
    next
      case 3
      with sub show ?thesis by (simp add: C'_def)
    qed
  qed
  have z: "0 \<le> level" by simp
  let ?f = "\<lambda>n. key (h ! n)"
  from srt F(2) [OF z] have s0: "sorted_wrt (<) (map ?f (PRE 0 @ SUF 0))" by simp
  then have sp0: "sorted_wrt (<) (map ?f (PRE 0))" and ss0: "sorted_wrt (<) (map ?f (SUF 0))"
    by (simp_all add: sorted_wrt_append)
  have below: "\<forall>x \<in> set (PRE 0). ?f x < k"
  proof (cases "PRE 0 = []")
    case True
    then show ?thesis by simp
  next
    case False
    with F(3) [OF z] have lst: "last (PRE 0) = U 0" by (simp add: at_end_def)
    with False have "U 0 \<in> set (PRE 0)" by (metis last_in_set)
    with ch lv F(2) [OF z] have "U 0 \<noteq> 0" by (metis Un_iff set_append MAX_TABLE_LEVELS_def zero_less_numeral)
    with F(6) [OF z] lst have "?f (last (PRE 0)) < k" by simp
    from sorted_pre_below [OF sp0 False this] show ?thesis .
  qed
  have above: "\<forall>y \<in> set (SUF 0). k < ?f y"
  proof (cases "SUF 0")
    case Nil
    then show ?thesis by simp
  next
    case (Cons m suf)
    with F(5) [OF z] have "uns ! 0 = Some m" by (simp add: chain_def)
    with F(7) [OF z] have "k < ?f m" by simp
    from sorted_suf_above [OF ss0 [unfolded Cons] this] Cons show ?thesis by simp
  qed
  from bound [of 0] F(2) [OF z] have b0: "\<forall>n \<in> set (PRE 0 @ SUF 0). n < length h"
    by (simp add: MAX_TABLE_LEVELS_def)
  have same_keys: "map (\<lambda>n. key (h' ! n)) xs = map ?f xs" if "set xs \<subseteq> set (PRE 0 @ SUF 0)" for xs
    using that b0 keys by (auto simp: subset_iff)
  have ka: "key (h' ! a) = k" using keys a(1,4) by simp
  have c3: "sorted_wrt (<) (map (\<lambda>n. key (h' ! n)) (C' 0))"
  proof -
    have "map (\<lambda>n. key (h' ! n)) (C' 0) = map ?f (PRE 0) @ k # map ?f (SUF 0)"
      using same_keys [of "PRE 0"] same_keys [of "SUF 0"] ka by (simp add: C'_def)
    moreover have "sorted_wrt (<) (map ?f (PRE 0) @ k # map ?f (SUF 0))"
      using s0 below above by (auto simp: sorted_wrt_append)
    ultimately show ?thesis by simp
  qed
  have c4: "set (map (\<lambda>n. key (h' ! n)) (C' 0)) = insert k (set (map ?f (C 0)))"
  proof -
    have "map (\<lambda>n. key (h' ! n)) (C' 0) = map ?f (PRE 0) @ k # map ?f (SUF 0)"
      using same_keys [of "PRE 0"] same_keys [of "SUF 0"] ka by (simp add: C'_def)
    then show ?thesis using F(2) [OF z] by auto
  qed
  have "levels_ok h' C'"
    unfolding levels_ok_def using ne len nl nl' c1 c2 c3 by auto
  with c4 show ?thesis by blast
qed

subsection \<open>The record indices\<close>

lemma sint_scast_index: "sint (scast (w :: int32_t) :: size_t) = sint w"
  by (rule sint_up_scast) (simp add: is_up)

lemma uint_of_nonneg:
  fixes x :: "'a::len word"
  assumes "0 \<le> sint x"
  shows "uint x = sint x"
proof -
  have "sint x < 2 ^ (LENGTH('a) - 1)" by (rule sint_lt)
  also have "(2 :: int) ^ (LENGTH('a) - 1) \<le> 2 ^ LENGTH('a)"
    by (rule power_increasing) simp_all
  finally have lt: "sint x < 2 ^ LENGTH('a)" .
  have "uint x = take_bit LENGTH('a) (sint x)" by (simp add: uint_sint)
  also have "\<dots> = sint x" using assms lt by (simp add: take_bit_int_eq_self)
  finally show ?thesis .
qed

lemma uint_scast_index:
  assumes "0 \<le> sint (w :: int32_t)"
  shows "uint (scast w :: size_t) = sint w"
  using uint_of_nonneg [of "scast w :: size_t"] assms by (simp add: sint_scast_index)

lemma unat_scast_index:
  assumes "0 \<le> sint (w :: int32_t)"
  shows "unat (scast w :: size_t) = nat (sint w)"
  by (simp only: unat_eq_nat_uint uint_scast_index [OF assms])

lemma ucast_scast_index: "(ucast (scast (w :: int32_t) :: size_t) :: int32_t) = w"
proof -
  have "(ucast :: size_t \<Rightarrow> int32_t) = scast"
    by (rule down_cast_same) (simp add: is_down)
  then have "(ucast (scast w :: size_t) :: int32_t) = scast (scast w :: size_t)"
    by simp
  also have "\<dots> = w"
    by (rule scast_up_scast_id) (simp add: is_up)
  finally show ?thesis .
qed

lemma sint_succ_index:
  assumes "sint (w :: int32_t) < 2147483647"
  shows "sint (w + 1) = sint w + 1"
proof -
  have "- (2 ^ (LENGTH(32) - 1)) \<le> sint w" by (rule sint_ge)
  then have lo: "- 2147483648 \<le> sint w" by simp
  have "sint (w + 1) = signed_take_bit (LENGTH(32) - 1) (sint w + sint (1 :: int32_t))"
    by (rule sint_word_add)
  also have "\<dots> = signed_take_bit 31 (sint w + 1)" by simp
  also have "\<dots> = sint w + 1"
    using assms lo by (intro signed_take_bit_int_eq_self) simp_all
  finally show ?thesis .
qed

lemma idx_ok_new:
  "unat (writes_before_lock opts) < 2 ^ 31 \<Longrightarrow> idx_ok (skiptable_new opts)"
  by (simp add: idx_ok_def skiptable_new_def)

lemma idx_ok_unlocked:
  assumes ok: "idx_ok t" and nlk: "\<not> locked t"
  shows "unat (scast (next_record t) :: size_t) < length (records t)"
    and "sint (next_record t) < uint (writes_before_lock (config t))"
    and "sint (next_record t + 1) = sint (next_record t) + 1"
proof -
  from ok have nn: "0 \<le> sint (next_record t)" by (simp add: idx_ok_def)
  from ok have len: "length (records t) = unat (writes_before_lock (config t))"
    by (simp add: idx_ok_def)
  from ok have "unat (writes_before_lock (config t)) < 2 ^ 31" by (simp add: idx_ok_def)
  then have "int (unat (writes_before_lock (config t))) < int (2 ^ 31)"
    by (simp only: of_nat_less_iff)
  then have small: "uint (writes_before_lock (config t)) < 2147483648" by simp
  from nlk have w: "(scast (next_record t) :: size_t) < writes_before_lock (config t)"
    by (simp add: locked_def not_le)
  then show "unat (scast (next_record t) :: size_t) < length (records t)"
    by (simp add: len word_less_nat_alt)
  from w have "uint (scast (next_record t) :: size_t) < uint (writes_before_lock (config t))"
    by (simp add: word_less_def)
  then show lt: "sint (next_record t) < uint (writes_before_lock (config t))"
    by (simp add: uint_scast_index [OF nn])
  with small have "sint (next_record t) < 2147483647" by arith
  then show "sint (next_record t + 1) = sint (next_record t) + 1" by (rule sint_succ_index)
qed

text \<open>A call that takes a record slot keeps the invariant when every node of the new list is
  an old node with its index or carries the index of the new record.\<close>

lemma idx_ok_step:
  assumes ok: "idx_ok t" and nlk: "\<not> locked t"
    and c: "config t' = config t" and r: "length (records t') = length (records t)"
    and n: "next_record t' = next_record t + 1"
    and h: "\<forall>n < length (nodes t'). 0 < n \<longrightarrow>
              (n < length (nodes t) \<and> record_idx (nodes t' ! n) = record_idx (nodes t ! n)) \<or>
              record_idx (nodes t' ! n) = next_record t"
  shows "idx_ok t'"
proof -
  note u = idx_ok_unlocked [OF ok nlk]
  from ok have nn: "0 \<le> sint (next_record t)" by (simp add: idx_ok_def)
  from u(2) have le: "sint (next_record t) + 1 \<le> uint (writes_before_lock (config t))" by arith
  have "0 \<le> sint (record_idx (nodes t' ! m)) \<and>
        sint (record_idx (nodes t' ! m)) < sint (next_record t) + 1"
    if m: "m < length (nodes t')" "0 < m" for m
  proof -
    from h m have "(m < length (nodes t) \<and> record_idx (nodes t' ! m) = record_idx (nodes t ! m)) \<or>
              record_idx (nodes t' ! m) = next_record t" by blast
    then show ?thesis
    proof
      assume a: "m < length (nodes t) \<and> record_idx (nodes t' ! m) = record_idx (nodes t ! m)"
      with ok m have "0 \<le> sint (record_idx (nodes t ! m)) \<and>
          sint (record_idx (nodes t ! m)) < sint (next_record t)"
        by (simp add: idx_ok_def)
      with a show ?thesis by simp
    next
      assume "record_idx (nodes t' ! m) = next_record t"
      with nn show ?thesis by simp
    qed
  qed
  with ok c r n u(3) nn le show ?thesis by (simp add: idx_ok_def)
qed

lemma idx_ok_slot:
  assumes ok: "idx_ok t" and n: "n < length (nodes t)" "0 < n"
  shows "unat (scast (record_idx (nodes t ! n)) :: size_t) < length (records t)"
proof -
  let ?r = "record_idx (nodes t ! n)"
  from ok n have r: "0 \<le> sint ?r" "sint ?r < sint (next_record t)"
    by (simp_all add: idx_ok_def)
  from ok have "sint (next_record t) \<le> int (unat (writes_before_lock (config t)))"
    by (simp add: idx_ok_def)
  with r have "nat (sint ?r) < unat (writes_before_lock (config t))" by arith
  moreover from ok have "length (records t) = unat (writes_before_lock (config t))"
    by (simp add: idx_ok_def)
  ultimately show ?thesis by (simp only: unat_scast_index [OF r(1)])
qed

lemma levels_ok_bound:
  "levels_ok h C \<Longrightarrow> l < MAX_TABLE_LEVELS \<Longrightarrow> \<forall>n \<in> set (C l). n < length h"
  using path_bound [of h l "nxt (h ! 0) ! l" "C l" None] by (simp add: levels_ok_def chain_def)

lemma levels_ok_cong:
  assumes ok: "levels_ok h C" and ne: "h' \<noteq> []"
    and nl: "\<forall>n < length h'. length (nxt (h' ! n)) = MAX_TABLE_LEVELS"
    and same: "\<forall>l < MAX_TABLE_LEVELS. \<forall>n \<in> set (C l).
                 n < length h' \<and> nxt (h' ! n) = nxt (h ! n) \<and> key (h' ! n) = key (h ! n)"
    and hd: "nxt (h' ! 0) = nxt (h ! 0)"
  shows "levels_ok h' C"
proof -
  have c: "chain h' l (nxt (h' ! 0) ! l) (C l)" if l: "l < MAX_TABLE_LEVELS" for l
  proof -
    from ok l have "chain h l (nxt (h ! 0) ! l) (C l)" by (simp add: levels_ok_def)
    moreover from same l have "\<forall>n \<in> set (C l). n < length h' \<and> nxt (h' ! n) ! l = nxt (h ! n) ! l"
      by simp
    ultimately have "chain h' l (nxt (h ! 0) ! l) (C l)" by (rule chain_keep)
    with hd show ?thesis by simp
  qed
  have "0 < MAX_TABLE_LEVELS" by (simp add: MAX_TABLE_LEVELS_def)
  with same have "\<forall>n \<in> set (C 0). key (h' ! n) = key (h ! n)" by blast
  then have meq: "map (\<lambda>n. key (h' ! n)) (C 0) = map (\<lambda>n. key (h ! n)) (C 0)"
    by simp
  from ok have "sorted_wrt (<) (map (\<lambda>n. key (h ! n)) (C 0))" by (simp add: levels_ok_def)
  then have "sorted_wrt (<) (map (\<lambda>n. key (h' ! n)) (C 0))" by (simp only: meq)
  with ok ne nl c show ?thesis by (simp add: levels_ok_def)
qed

lemma levels_ok_keys_cong:
  assumes "levels_ok h C"
    and "\<forall>n \<in> set (C 0). key (h' ! n) = key (h ! n)"
  shows "map (\<lambda>n. key (h' ! n)) (C 0) = map (\<lambda>n. key (h ! n)) (C 0)"
  using assms by simp

lemma insert_loop_levels_ok:
  assumes ok: "levels_ok h C" and a: "a < length h" "a \<noteq> 0" "\<forall>l < MAX_TABLE_LEVELS. a \<notin> set (C l)"
    "key (h ! a) = k" and len: "length us = MAX_TABLE_LEVELS" "length uns = MAX_TABLE_LEVELS"
  shows "\<exists>r. insert_loop h k idx level a us uns = Some r \<and>
           (case r of
              Inl e \<Rightarrow> \<not> level < MAX_TABLE_LEVELS \<or>
                (\<exists>n2 \<in> set (C 0). \<not> newer (h ! n2) idx \<and> \<not> older (h ! n2) idx)
            | Inr (Spliced h') \<Rightarrow>
                length h' = length h \<and> (\<forall>n < length h. record_idx (h' ! n) = record_idx (h ! n)) \<and>
                (\<exists>C'. levels_ok h' C' \<and>
                   set (map (\<lambda>n. key (h' ! n)) (C' 0)) = insert k (set (map (\<lambda>n. key (h ! n)) (C 0))))
            | Inr (Existing_newer n2 h') \<Rightarrow>
                h' = h \<and> n2 \<in> set (C 0) \<and> key (h ! n2) = k \<and> newer (h ! n2) idx
            | Inr (Existing_older n2 h') \<Rightarrow> h' = h \<and> n2 \<in> set (C 0) \<and> key (h ! n2) = k)"
proof (cases "level < MAX_TABLE_LEVELS")
  case False
  then have "search h k idx (Suc level) 0 us uns = Some (Inl Out_of_bounds)" by simp
  then have "insert_loop h k idx level a us uns = Some (Inl Out_of_bounds)"
    by (subst insert_loop.simps) simp
  with False show ?thesis by simp
next
  case True
  then have c: "Suc level \<le> MAX_TABLE_LEVELS" by simp
  from search_levels_ok [OF ok c _ _ len, of 0 k idx] obtain r where
    r: "search h k idx (Suc level) 0 us uns = Some r" and
    p: "case r of
              Inl e \<Rightarrow> e = Assertion_failed \<and>
                (\<exists>n2 \<in> set (C 0). \<not> newer (h ! n2) idx \<and> \<not> older (h ! n2) idx)
            | Inr (Links us' uns') \<Rightarrow>
                (\<forall>j < Suc level. gap h k (C j) j (us' ! j) (uns' ! j))
            | Inr (Found_newer n2) \<Rightarrow> n2 \<in> set (C 0) \<and> key (h ! n2) = k \<and> newer (h ! n2) idx
            | Inr (Found_older n2) \<Rightarrow> n2 \<in> set (C 0) \<and> key (h ! n2) = k"
    by auto
  show ?thesis
  proof (cases r)
    case (Inl e)
    with r have "insert_loop h k idx level a us uns = Some (Inl e)"
      by (subst insert_loop.simps) simp
    with p Inl show ?thesis by simp
  next
    case (Inr sr)
    show ?thesis
    proof (cases sr)
      case (Found_newer n2)
      with r Inr have "insert_loop h k idx level a us uns = Some (Inr (Existing_newer n2 h))"
        by (subst insert_loop.simps) simp
      with p Inr Found_newer show ?thesis by simp
    next
      case (Found_older n2)
      with r Inr have "insert_loop h k idx level a us uns = Some (Inr (Existing_older n2 h))"
        by (subst insert_loop.simps) simp
      with p Inr Found_older show ?thesis by simp
    next
      case (Links us' uns')
      with p Inr have gaps: "\<forall>j < Suc level. gap h k (C j) j (us' ! j) (uns' ! j)" by simp
      from ok have nl: "\<forall>n < length h. length (nxt (h ! n)) = MAX_TABLE_LEVELS" and ne: "h \<noteq> []"
        by (simp_all add: levels_ok_def)
      have pre: "\<forall>i \<in> set (rev [0..<Suc level]). i < length (nxt (h ! a)) \<and>
           (\<exists>u. us' ! i = Some u \<and> u < length h \<and> u \<noteq> a \<and> i < length (nxt (h ! u)) \<and>
                nxt (h ! u) ! i = uns' ! i)"
      proof
        fix i assume "i \<in> set (rev [0..<Suc level])"
        then have i: "i < Suc level" by auto
        with True have im: "i < MAX_TABLE_LEVELS" by simp
        from gaps i have "gap h k (C i) i (us' ! i) (uns' ! i)" by simp
        then obtain u where u: "us' ! i = Some u" "uns' ! i = nxt (h ! u) ! i" "u = 0 \<or> u \<in> set (C i)"
          unfolding gap_def using at_end_member by fastforce
        from u(3) levels_ok_bound [OF ok im] ne have ul: "u < length h" by auto
        from u(3) a(2,3) im have "u \<noteq> a" by auto
        with u ul nl a(1) im show "i < length (nxt (h ! a)) \<and>
           (\<exists>u. us' ! i = Some u \<and> u < length h \<and> u \<noteq> a \<and> i < length (nxt (h ! u)) \<and>
                nxt (h ! u) ! i = uns' ! i)" by simp
      qed
      from splice_spliced [OF spliced_refl a(1) _ _ pre] obtain h' where
        s: "splice h a us' uns' (rev [0..<Suc level]) = Inr (True, h')" and
        sp: "spliced h h' a us' uns' ({} \<union> set (rev [0..<Suc level]))" by auto
      have "{} \<union> set (rev [0..<Suc level]) = {..level}" by auto
      with sp have sp': "spliced h h' a us' uns' {..level}" by simp
      from r Inr Links s have "insert_loop h k idx level a us uns = Some (Inr (Spliced h'))"
        by (subst insert_loop.simps) simp
      moreover from sp' have "length h' = length h \<and> (\<forall>n < length h. record_idx (h' ! n) = record_idx (h ! n))"
        by (simp add: spliced_def)
      ultimately show ?thesis using splice_levels_ok [OF ok True gaps sp' a] by simp
    qed
  qed
qed

lemma levels_ok_new: "levels_ok (nodes (skiptable_new opts)) (\<lambda>l. [])"
  by (simp add: levels_ok_def skiptable_new_def chain_def)

lemma table_insert_levels_ok:
  assumes ok: "levels_ok (nodes t) C"
  shows "\<exists>r. table_insert t k v draw malloc_ok = Some r \<and>
           (case r of
              Inl e \<Rightarrow> \<not> (idx_ok t \<and> random_level draw 0 < MAX_TABLE_LEVELS)
            | Inr (p, t') \<Rightarrow>
                (idx_ok t \<longrightarrow> idx_ok t') \<and>
                (\<exists>C'. levels_ok (nodes t') C' \<and>
                   set (map (\<lambda>n. key (nodes t' ! n)) (C' 0)) =
                     (if p = None then set (map (\<lambda>n. key (nodes t ! n)) (C 0))
                      else insert k (set (map (\<lambda>n. key (nodes t ! n)) (C 0))))))"
proof -
  let ?h = "nodes t"
  let ?idx = "ucast (scast (next_record t) :: size_t) :: int32_t"
  let ?new = "\<lparr>key = k, record_idx = ?idx, nxt = replicate MAX_TABLE_LEVELS None\<rparr>"
  let ?h1 = "?h @ [?new]"
  let ?a = "length ?h"
  let ?none = "replicate MAX_TABLE_LEVELS (None :: nat option)"
  let ?K = "set (map (\<lambda>n. key (?h ! n)) (C 0))"
  from ok have ne: "?h \<noteq> []" and nl: "\<forall>n < length ?h. length (nxt (?h ! n)) = MAX_TABLE_LEVELS"
    by (simp_all add: levels_ok_def)
  have b: "n < length ?h" if "l < MAX_TABLE_LEVELS" and "n \<in> set (C l)" for l n
    using levels_ok_bound [OF ok that(1)] that(2) by simp
  have z: "0 < MAX_TABLE_LEVELS" by (simp add: MAX_TABLE_LEVELS_def)
  have ok1: "levels_ok ?h1 C"
  proof (rule levels_ok_cong [OF ok])
    show "?h1 \<noteq> []" by simp
    show "\<forall>n < length ?h1. length (nxt (?h1 ! n)) = MAX_TABLE_LEVELS"
      using nl by (auto simp: nth_append)
    show "\<forall>l < MAX_TABLE_LEVELS. \<forall>n \<in> set (C l).
            n < length ?h1 \<and> nxt (?h1 ! n) = nxt (?h ! n) \<and> key (?h1 ! n) = key (?h ! n)"
    proof (intro allI impI ballI)
      fix l n assume "l < MAX_TABLE_LEVELS" and "n \<in> set (C l)"
      then have "n < length ?h" by (rule b)
      then show "n < length ?h1 \<and> nxt (?h1 ! n) = nxt (?h ! n) \<and> key (?h1 ! n) = key (?h ! n)"
        by (simp add: nth_append)
    qed
    show "nxt (?h1 ! 0) = nxt (?h ! 0)" using ne by (simp add: nth_append)
  qed
  have a3: "\<forall>l < MAX_TABLE_LEVELS. ?a \<notin> set (C l)"
    using b by blast
  have a: "?a < length ?h1" "?a \<noteq> 0" "\<forall>l < MAX_TABLE_LEVELS. ?a \<notin> set (C l)" "key (?h1 ! ?a) = k"
    using ne a3 by auto
  have keys1: "map (\<lambda>n. key (?h1 ! n)) (C 0) = map (\<lambda>n. key (?h ! n)) (C 0)"
    using b [OF z] by (simp add: nth_append)
  have ln: "length ?none = MAX_TABLE_LEVELS" by simp
  from insert_loop_levels_ok [OF ok1 a ln ln, of ?idx "random_level draw 0"] obtain r where
    r: "insert_loop ?h1 k ?idx (random_level draw 0) ?a ?none ?none = Some r" and
    p: "case r of
              Inl e \<Rightarrow> \<not> random_level draw 0 < MAX_TABLE_LEVELS \<or>
                (\<exists>n2 \<in> set (C 0). \<not> newer (?h1 ! n2) ?idx \<and> \<not> older (?h1 ! n2) ?idx)
            | Inr (Spliced h') \<Rightarrow>
                length h' = length ?h1 \<and> (\<forall>n < length ?h1. record_idx (h' ! n) = record_idx (?h1 ! n)) \<and>
                (\<exists>C'. levels_ok h' C' \<and>
                   set (map (\<lambda>n. key (h' ! n)) (C' 0)) = insert k (set (map (\<lambda>n. key (?h1 ! n)) (C 0))))
            | Inr (Existing_newer n2 h') \<Rightarrow>
                h' = ?h1 \<and> n2 \<in> set (C 0) \<and> key (?h1 ! n2) = k \<and> newer (?h1 ! n2) ?idx
            | Inr (Existing_older n2 h') \<Rightarrow> h' = ?h1 \<and> n2 \<in> set (C 0) \<and> key (?h1 ! n2) = k"
    by blast
  have same: "\<exists>C'. levels_ok ?h C' \<and> set (map (\<lambda>n. key (?h ! n)) (C' 0)) = ?K"
    using ok by blast
  have idx: "?idx = next_record t" by (rule ucast_scast_index)
  from ok have nz: "0 \<notin> set (C 0)" using z by (simp add: levels_ok_def)
  have old: "older (?h1 ! n2) ?idx" if i: "idx_ok t" and n2: "n2 \<in> set (C 0)" for n2
  proof -
    from n2 have l: "n2 < length ?h" by (rule b [OF z])
    from n2 nz have "0 < n2" by (cases "n2 = 0") auto
    with i l have "sint (record_idx (?h ! n2)) < sint (next_record t)" by (simp add: idx_ok_def)
    with l show ?thesis by (simp add: older_def idx nth_append)
  qed
  have step: "idx_ok t \<longrightarrow> idx_ok t'"
    if "\<not> locked t" and "config t' = config t" and "length (records t') = length (records t)"
      and "next_record t' = next_record t + 1"
      and "\<forall>n < length (nodes t'). 0 < n \<longrightarrow>
              (n < length ?h \<and> record_idx (nodes t' ! n) = record_idx (?h ! n)) \<or>
              record_idx (nodes t' ! n) = next_record t" for t'
  proof
    assume i: "idx_ok t"
    show "idx_ok t'" by (rule idx_ok_step [OF i that])
  qed
  show ?thesis
  proof (cases "locked t")
    case True
    then have "table_insert t k v draw malloc_ok = Some (Inr (None, t))"
      by (simp add: table_insert_def)
    with same show ?thesis by simp
  next
    case nlk: False
    show ?thesis
    proof (cases "unat (scast (next_record t) :: size_t) < length (records t)")
      case False
      with nlk have "table_insert t k v draw malloc_ok = Some (Inl Out_of_bounds)"
        by (simp add: table_insert_def Let_def)
      moreover have "\<not> idx_ok t"
      proof
        assume "idx_ok t"
        from False idx_ok_unlocked(1) [OF this nlk] show False ..
      qed
      ultimately show ?thesis by simp
    next
      case inr: True
      show ?thesis
      proof (cases malloc_ok)
        case False
        with nlk inr obtain t' where e: "table_insert t k v draw malloc_ok = Some (Inr (None, t'))"
          and f: "nodes t' = ?h" "config t' = config t" "length (records t') = length (records t)"
            "next_record t' = next_record t + 1"
          by (simp add: table_insert_def Let_def)
        from f have "idx_ok t \<longrightarrow> idx_ok t'" by (intro step [OF nlk]) simp_all
        with same e f(1) show ?thesis by simp
      next
        case True
        show ?thesis
        proof (cases r)
          case (Inl e)
          with r nlk inr True have "table_insert t k v draw malloc_ok = Some (Inl e)"
            by (simp add: table_insert_def Let_def)
          moreover have "\<not> (idx_ok t \<and> random_level draw 0 < MAX_TABLE_LEVELS)"
          proof
            assume c: "idx_ok t \<and> random_level draw 0 < MAX_TABLE_LEVELS"
            with p Inl obtain n2 where n2: "n2 \<in> set (C 0)" and
              no: "\<not> older (?h1 ! n2) ?idx" by auto
            from c have "idx_ok t" ..
            from no old [OF this n2] show False ..
          qed
          ultimately show ?thesis by simp
        next
          case (Inr ir)
          show ?thesis
          proof (cases ir)
            case (Spliced h')
            with p Inr keys1 have ex: "\<exists>C'. levels_ok h' C' \<and>
                set (map (\<lambda>n. key (h' ! n)) (C' 0)) = insert k ?K"
              by auto
            from p Inr Spliced have lh: "length h' = length ?h1" and
              rh: "\<forall>n < length ?h1. record_idx (h' ! n) = record_idx (?h1 ! n)"
              by simp_all
            from r nlk inr True Inr Spliced obtain t' where
              e: "table_insert t k v draw malloc_ok = Some (Inr (Some ?a, t'))" and
              f: "nodes t' = h'" "config t' = config t" "length (records t') = length (records t)"
                "next_record t' = next_record t + 1"
              by (simp add: table_insert_def Let_def)
            have "(n < length ?h \<and> record_idx (h' ! n) = record_idx (?h ! n)) \<or>
                  record_idx (h' ! n) = next_record t" if "n < length h'" for n
            proof (cases "n < length ?h")
              case True
              with rh show ?thesis by (simp add: nth_append)
            next
              case False
              with that lh have "n = ?a" by simp
              with rh idx show ?thesis by simp
            qed
            with f have "idx_ok t \<longrightarrow> idx_ok t'" by (intro step [OF nlk]) simp_all
            with ex e f(1) show ?thesis by simp
          next
            case (Existing_newer n2 h')
            with p Inr have h': "h' = ?h1" and n2: "n2 \<in> set (C 0)" and kn: "key (?h1 ! n2) = k"
              by simp_all
            from n2 have "n2 < length ?h" by (rule b [OF z])
            with kn have "key (?h ! n2) = k" by (simp add: nth_append)
            with n2 have ks: "insert k ?K = ?K"
              by auto
            from r nlk inr True Inr Existing_newer h' obtain t' where
              e: "table_insert t k v draw malloc_ok = Some (Inr (Some n2, t'))" and
              f: "nodes t' = ?h" "config t' = config t" "length (records t') = length (records t)"
                "next_record t' = next_record t + 1"
              by (simp add: table_insert_def Let_def)
            from f have "idx_ok t \<longrightarrow> idx_ok t'" by (intro step [OF nlk]) simp_all
            with same ks e f(1) show ?thesis by simp
          next
            case (Existing_older n2 h')
            with p Inr have h': "h' = ?h1" and n2: "n2 \<in> set (C 0)" and kn: "key (?h1 ! n2) = k"
              by simp_all
            from n2 have n2l: "n2 < length ?h" by (rule b [OF z])
            with kn have kn': "key (?h ! n2) = k" by (simp add: nth_append)
            with n2 have ks: "insert k ?K = ?K"
              by auto
            let ?h2 = "?h[n2 := (?h ! n2)\<lparr>record_idx := ?idx\<rparr>]"
            have bl: "butlast (?h1[n2 := (?h1 ! n2)\<lparr>record_idx := ?idx\<rparr>]) = ?h2"
              using n2l by (simp add: list_update_append nth_append)
            have ok2: "levels_ok ?h2 C"
            proof (rule levels_ok_cong [OF ok])
              show "?h2 \<noteq> []" using ne by simp
              show "\<forall>n < length ?h2. length (nxt (?h2 ! n)) = MAX_TABLE_LEVELS"
                using nl n2l by (auto simp: nth_list_update)
              show "\<forall>l < MAX_TABLE_LEVELS. \<forall>n \<in> set (C l).
                      n < length ?h2 \<and> nxt (?h2 ! n) = nxt (?h ! n) \<and> key (?h2 ! n) = key (?h ! n)"
              proof (intro allI impI ballI)
                fix l n assume "l < MAX_TABLE_LEVELS" and "n \<in> set (C l)"
                then have "n < length ?h" by (rule b)
                with n2l show "n < length ?h2 \<and> nxt (?h2 ! n) = nxt (?h ! n) \<and> key (?h2 ! n) = key (?h ! n)"
                  by (simp add: nth_list_update)
              qed
              show "nxt (?h2 ! 0) = nxt (?h ! 0)" using ne n2l by (auto simp: nth_list_update)
            qed
            have keys2: "map (\<lambda>n. key (?h2 ! n)) (C 0) = map (\<lambda>n. key (?h ! n)) (C 0)"
              using b [OF z] n2l by (simp add: nth_list_update)
            have ex2: "\<exists>C'. levels_ok ?h2 C' \<and> set (map (\<lambda>n. key (?h2 ! n)) (C' 0)) = insert k ?K"
              using ok2 keys2 ks by (intro exI [of _ C]) simp
            show ?thesis
            proof (cases "unat (scast (record_idx (?h1 ! n2)) :: size_t) < length (records t)")
              case False
              with r nlk inr True Inr Existing_older h'
              have "table_insert t k v draw malloc_ok = Some (Inl Out_of_bounds)"
                by (simp add: table_insert_def Let_def)
              moreover have "\<not> idx_ok t"
              proof
                assume "idx_ok t"
                from n2 nz have "0 < n2" by (cases "n2 = 0") auto
                from idx_ok_slot [OF \<open>idx_ok t\<close> n2l this] n2l False show False
                  by (simp add: nth_append)
              qed
              ultimately show ?thesis by simp
            next
              case j: True
              with r nlk inr True Inr Existing_older h' obtain t' where
                e: "table_insert t k v draw malloc_ok = Some (Inr (Some n2, t'))" and
                f: "nodes t' = butlast (?h1[n2 := (?h1 ! n2)\<lparr>record_idx := ?idx\<rparr>])"
                  "config t' = config t" "length (records t') = length (records t)"
                  "next_record t' = next_record t + 1"
                by (simp add: table_insert_def Let_def)
              from f(1) bl have f1: "nodes t' = ?h2" by simp
              have "(n < length ?h \<and> record_idx (?h2 ! n) = record_idx (?h ! n)) \<or>
                    record_idx (?h2 ! n) = next_record t" if "n < length ?h2" for n
                using that n2l idx by (cases "n = n2") simp_all
              with f1 f(2-) have "idx_ok t \<longrightarrow> idx_ok t'" by (intro step [OF nlk]) simp_all
              with ex2 e f1 show ?thesis by simp
            qed
          qed
        qed
      qed
    qed
  qed
qed

lemma traverse_chain: "chain h 0 p c \<Longrightarrow> traverse h p = Some (map (\<lambda>n. key (h ! n)) c)"
proof (induction c arbitrary: p)
  case Nil
  then show ?case by (subst traverse.simps) (simp add: chain_def)
next
  case (Cons a c)
  then have p: "p = Some a" and tl: "chain h 0 (nxt (h ! a) ! 0) c" by (simp_all add: chain_def)
  from Cons.IH [OF tl] p show ?case
    by (subst traverse.simps) (simp add: iterate_def)
qed

lemma inserts_levels_ok:
  "levels_ok (nodes t) C \<Longrightarrow>
     \<exists>r. inserts t ops = Some r \<and>
       (case r of
          Inl e \<Rightarrow>
            \<not> (idx_ok t \<and>
               (\<forall>(k, v, draw, malloc_ok) \<in> set ops. random_level draw 0 < MAX_TABLE_LEVELS))
        | Inr (t', ks) \<Rightarrow>
            (\<exists>C'. levels_ok (nodes t') C' \<and>
               set (map (\<lambda>n. key (nodes t' ! n)) (C' 0)) =
                 set (map (\<lambda>n. key (nodes t ! n)) (C 0)) \<union> set ks))"
proof (induction ops arbitrary: t C)
  case Nil
  then show ?case by auto
next
  case (Cons op ops)
  obtain k v draw malloc_ok where op: "op = (k, v, draw, malloc_ok)" by (cases op)
  from table_insert_levels_ok [OF Cons.prems, of k v draw malloc_ok] obtain r where
    r: "table_insert t k v draw malloc_ok = Some r" and
    p: "case r of
              Inl e \<Rightarrow> \<not> (idx_ok t \<and> random_level draw 0 < MAX_TABLE_LEVELS)
            | Inr (p, t') \<Rightarrow>
                (idx_ok t \<longrightarrow> idx_ok t') \<and>
                (\<exists>C'. levels_ok (nodes t') C' \<and>
                   set (map (\<lambda>n. key (nodes t' ! n)) (C' 0)) =
                     (if p = None then set (map (\<lambda>n. key (nodes t ! n)) (C 0))
                      else insert k (set (map (\<lambda>n. key (nodes t ! n)) (C 0)))))"
    by blast
  show ?case
  proof (cases r)
    case (Inl e)
    with r p op show ?thesis by auto
  next
    case (Inr pt)
    obtain q t' where pt: "pt = (q, t')" by (cases pt)
    with p Inr have io: "idx_ok t \<longrightarrow> idx_ok t'" by simp
    from pt p Inr obtain C' where ok': "levels_ok (nodes t') C'" and
      ks': "set (map (\<lambda>n. key (nodes t' ! n)) (C' 0)) =
              (if q = None then set (map (\<lambda>n. key (nodes t ! n)) (C 0))
               else insert k (set (map (\<lambda>n. key (nodes t ! n)) (C 0))))"
      by auto
    from Cons.IH [OF ok'] obtain r' where
      r': "inserts t' ops = Some r'" and
      p': "case r' of
          Inl e \<Rightarrow>
            \<not> (idx_ok t' \<and>
               (\<forall>(k, v, draw, malloc_ok) \<in> set ops. random_level draw 0 < MAX_TABLE_LEVELS))
        | Inr (t'', ks) \<Rightarrow>
            (\<exists>C''. levels_ok (nodes t'') C'' \<and>
               set (map (\<lambda>n. key (nodes t'' ! n)) (C'' 0)) =
                 set (map (\<lambda>n. key (nodes t' ! n)) (C' 0)) \<union> set ks)"
      by blast
    show ?thesis
    proof (cases r')
      case (Inl e)
      with p' io have "\<not> (idx_ok t \<and>
          (\<forall>(k, v, draw, malloc_ok) \<in> set (op # ops). random_level draw 0 < MAX_TABLE_LEVELS))"
        by auto
      moreover from r Inr pt r' Inl op have "inserts t (op # ops) = Some (Inl e)" by simp
      ultimately show ?thesis by simp
    next
      case Inr2: (Inr tk)
      obtain t'' ks where tk: "tk = (t'', ks)" by (cases tk)
      with p' Inr2 obtain C'' where ok'': "levels_ok (nodes t'') C''" and
        ks'': "set (map (\<lambda>n. key (nodes t'' ! n)) (C'' 0)) =
                 set (map (\<lambda>n. key (nodes t' ! n)) (C' 0)) \<union> set ks"
        by auto
      have eq: "inserts t (op # ops) = Some (Inr (t'', if q = None then ks else k # ks))"
        using r Inr pt r' Inr2 tk op by simp
      have "set (map (\<lambda>n. key (nodes t'' ! n)) (C'' 0)) =
              set (map (\<lambda>n. key (nodes t ! n)) (C 0)) \<union> set (if q = None then ks else k # ks)"
        using ks' ks'' by auto
      with ok'' eq show ?thesis by auto
    qed
  qed
qed

lemma table_insert_flags:
  assumes res: "table_insert t k v draw malloc_ok = Some (Inr (p, t'))"
  shows "is_locked t' = is_locked t \<and> config t' = config t"
proof (cases "locked t")
  case True
  with res show ?thesis by (simp add: table_insert_def)
next
  case nlk: False
  show ?thesis
  proof (cases "unat (scast (next_record t) :: size_t) < length (records t)")
    case False
    with nlk res show ?thesis by (simp add: table_insert_def Let_def)
  next
    case inr: True
    show ?thesis
    proof (cases malloc_ok)
      case False
      with nlk inr res show ?thesis by (auto simp: table_insert_def Let_def)
    next
      case True
      let ?idx = "ucast (scast (next_record t) :: size_t) :: int32_t"
      let ?h1 = "nodes t @ [\<lparr>key = k, record_idx = ?idx, nxt = replicate MAX_TABLE_LEVELS None\<rparr>]"
      let ?none = "replicate MAX_TABLE_LEVELS (None :: nat option)"
      show ?thesis
      proof (cases "insert_loop ?h1 k ?idx (random_level draw 0) (length (nodes t)) ?none ?none")
        case None
        with nlk inr True res show ?thesis by (simp add: table_insert_def Let_def)
      next
        case (Some r)
        show ?thesis
        proof (cases r)
          case (Inl e)
          with Some nlk inr True res show ?thesis by (simp add: table_insert_def Let_def)
        next
          case (Inr ir)
          show ?thesis
          proof (cases ir)
            case (Spliced h')
            with Some Inr nlk inr True res show ?thesis
              by (simp add: table_insert_def Let_def) auto
          next
            case (Existing_newer n2 h')
            with Some Inr nlk inr True res show ?thesis
              by (simp add: table_insert_def Let_def) auto
          next
            case (Existing_older n2 h')
            show ?thesis
            proof (cases "unat (scast (record_idx (h' ! n2)) :: size_t) < length (records t)")
              case False
              with Existing_older Some Inr nlk inr True res show ?thesis
                by (simp add: table_insert_def Let_def)
            next
              case j: True
              with Existing_older Some Inr nlk inr True res show ?thesis
                by (simp add: table_insert_def Let_def) auto
            qed
          qed
        qed
      qed
    qed
  qed
qed

lemma table_run_is_locked:
  "table_run t ops = Some (Inr t') \<Longrightarrow> is_locked t' \<longleftrightarrow> is_locked t \<or> Op_lock \<in> set ops"
proof (induction t ops rule: table_run.induct)
  case (1 t)
  then show ?case by simp
next
  case (2 t ops)
  then show ?case by (simp add: lock_def)
next
  case (3 t k v draw malloc_ok ops)
  from "3.prems" obtain r t1 where
    i: "table_insert t k v draw malloc_ok = Some (Inr (r, t1))" and run: "table_run t1 ops = Some (Inr t')"
    by (auto split: option.splits sum.splits)
  from "3.IH" [OF i refl refl run] table_insert_flags [OF i] show ?case by simp
qed

subsection \<open>The bottom level after a sequence of inserts\<close>

text \<open>Every sequence of \<open>insert\<close> calls on a new memtable ends. It ends without undefined
  behaviour and without a failed assertion when \<open>writes_before_lock\<close> is below \<open>2^31\<close> and no
  drawn level is 16. When it ends so, the traversal of the bottom level from \<open>first()\<close> along
  \<open>iterate(0)\<close> ends and visits the keys in strictly ascending lexicographic byte order, each
  key once, and the keys visited are exactly the keys whose \<open>insert\<close> returned a node.\<close>

lemma inserts_bottom_level_ascending:
  "inserts (skiptable_new opts) ops \<noteq> None \<and>
   (unat (writes_before_lock opts) < 2 ^ 31 \<and>
    (\<forall>(k, v, draw, malloc_ok) \<in> set ops. random_level draw 0 < MAX_TABLE_LEVELS) \<longrightarrow>
      returned (inserts (skiptable_new opts) ops)) \<and>
   (\<forall>t ks. inserts (skiptable_new opts) ops = Some (Inr (t, ks)) \<longrightarrow>
      (\<exists>keys. traverse (nodes t) (table_first t 0) = Some keys \<and>
         sorted_wrt (<) keys \<and> distinct keys \<and> set keys = set ks))"
proof -
  from inserts_levels_ok [OF levels_ok_new, of opts ops] obtain r where
    r: "inserts (skiptable_new opts) ops = Some r" and
    p: "case r of
          Inl e \<Rightarrow>
            \<not> (idx_ok (skiptable_new opts) \<and>
               (\<forall>(k, v, draw, malloc_ok) \<in> set ops. random_level draw 0 < MAX_TABLE_LEVELS))
        | Inr (t', ks) \<Rightarrow>
            (\<exists>C'. levels_ok (nodes t') C' \<and>
               set (map (\<lambda>n. key (nodes t' ! n)) (C' 0)) =
                 set (map (\<lambda>n. key (nodes (skiptable_new opts) ! n)) []) \<union> set ks)"
    by blast
  have "returned (inserts (skiptable_new opts) ops)"
    if w: "unat (writes_before_lock opts) < 2 ^ 31" and
      d: "\<forall>(k, v, draw, malloc_ok) \<in> set ops. random_level draw 0 < MAX_TABLE_LEVELS"
  proof (cases r)
    case (Inl e)
    with p idx_ok_new [OF w] d show ?thesis by simp
  next
    case (Inr x)
    with r show ?thesis by (simp add: returned_def)
  qed
  moreover have "\<exists>keys. traverse (nodes t) (table_first t 0) = Some keys \<and>
         sorted_wrt (<) keys \<and> distinct keys \<and> set keys = set ks"
    if "inserts (skiptable_new opts) ops = Some (Inr (t, ks))" for t ks
  proof -
    from that r p obtain C' where ok: "levels_ok (nodes t) C'" and
      ks: "set (map (\<lambda>n. key (nodes t ! n)) (C' 0)) = set ks" by auto
    let ?keys = "map (\<lambda>n. key (nodes t ! n)) (C' 0)"
    from ok have "chain (nodes t) 0 (nxt (nodes t ! 0) ! 0) (C' 0)"
      by (simp add: levels_ok_def MAX_TABLE_LEVELS_def)
    then have "traverse (nodes t) (table_first t 0) = Some ?keys"
      unfolding table_first_def iterate_def by (rule traverse_chain)
    moreover from ok have s: "sorted_wrt (<) ?keys" by (simp add: levels_ok_def)
    moreover from s have "distinct ?keys" by (simp add: strict_sorted_iff)
    ultimately show ?thesis using ks by blast
  qed
  ultimately show ?thesis using r by simp
qed

lemma inserts_bottom_level_ascending_example:
  "unat (writes_before_lock demo_opts) < 2 ^ 31 \<and>
   random_level (level_draws 2) 0 < MAX_TABLE_LEVELS \<and>
   random_level (level_draws 1) 0 < MAX_TABLE_LEVELS \<and>
   random_level (level_draws 0) 0 < MAX_TABLE_LEVELS \<and>
   (\<exists>t ks. inserts (skiptable_new demo_opts)
             [([98], [1, 2], level_draws 2, True), ([97], [7], level_draws 1, True),
              ([98], [], level_draws 0, True), ([99], [5], level_draws 0, False)]
           = Some (Inr (t, ks)) \<and>
          (\<exists>keys. traverse (nodes t) (table_first t 0) = Some keys \<and>
             sorted_wrt (<) keys \<and> distinct keys \<and> set keys = set ks))"
proof -
  let ?ops = "[([98 :: byte], [1 :: byte, 2], level_draws 2, True), ([97], [7], level_draws 1, True),
              ([98], [], level_draws 0, True), ([99], [5], level_draws 0, False)]"
  let ?r = "inserts (skiptable_new demo_opts) ?ops"
  have w: "unat (writes_before_lock demo_opts) < 2 ^ 31" by (simp add: demo_opts_def)
  have l: "random_level (level_draws 2) 0 < MAX_TABLE_LEVELS"
    "random_level (level_draws 1) 0 < MAX_TABLE_LEVELS"
    "random_level (level_draws 0) 0 < MAX_TABLE_LEVELS"
    by code_simp+
  then have d: "\<forall>(k, v, draw, malloc_ok) \<in> set ?ops. random_level draw 0 < MAX_TABLE_LEVELS"
    by simp
  note c4 = inserts_bottom_level_ascending [of demo_opts ?ops]
  from c4 w d have "returned ?r" by blast
  then obtain t ks where "?r = Some (Inr (t, ks))"
    by (cases ?r) (auto simp: returned_def split: sum.splits)
  with c4 w l show ?thesis by blast
qed

text \<open>A call of \<open>insert\<close> that takes a record slot and draws the level 16 indexes the link
  arrays out of range, whatever the table holds.\<close>

lemma table_insert_level_out_of_range:
  assumes nlk: "\<not> locked t" and slot: "unat (scast (next_record t) :: size_t) < length (records t)"
    and lv: "\<not> random_level draw 0 < MAX_TABLE_LEVELS"
  shows "table_insert t k v draw True = Some (Inl Out_of_bounds)"
proof -
  have "insert_loop h k idx (random_level draw 0) a us uns = Some (Inl Out_of_bounds)" for h idx a us uns
  proof -
    from lv have "search h k idx (Suc (random_level draw 0)) 0 us uns = Some (Inl Out_of_bounds)"
      by simp
    then show ?thesis by (subst insert_loop.simps) simp
  qed
  with nlk slot show ?thesis by (simp add: table_insert_def Let_def)
qed

text \<open>Claim C4. The claim is that after every sequence of \<open>insert\<close> calls the traversal of
  the bottom level visits every live key once, in strictly ascending order. The level loop of
  \<open>insert\<close> runs \<open>while (level < MAX_TABLE_LEVELS)\<close>, so sixteen odd draws in a row give the
  level 16, and the search from that level indexes the 16 links of the head, \<open>updates\<close> and
  \<open>update_nexts\<close> at 16: the call is undefined behaviour and no traversal follows. This
  happens on a new table and on a table that holds a key.\<close>

theorem insert_level_sixteen_out_of_bounds:
  "MAX_TABLE_LEVELS = 16 \<and>
   random_level (level_draws 16) 0 = 16 \<and>
   length (nxt (nodes (skiptable_new demo_opts) ! 0)) = 16 \<and>
   table_insert (skiptable_new demo_opts) [98] [1] (level_draws 16) True = Some (Inl Out_of_bounds) \<and>
   inserts (skiptable_new demo_opts)
     [([97], [7], level_draws 1, True), ([98], [1], level_draws 16, True)] =
     Some (Inl Out_of_bounds)"
  by code_simp

text \<open>Claim C5. For a table reached from a new one by any calls of \<open>lock()\<close> and \<open>insert\<close>,
  \<open>locked()\<close> is true exactly if \<open>total_data_size >= total_data_limit\<close>, or
  \<open>next_record >= writes_before_lock\<close>, or \<open>data_size >= data_limit\<close>, or \<open>lock()\<close> has been
  called; and on any locked table \<open>insert\<close> returns \<open>nullptr\<close> and leaves the table as it
  was.\<close>

theorem locked_iff_and_insert_rejected:
  "(table_run (skiptable_new opts) ops = Some (Inr t) \<longrightarrow>
      (locked t \<longleftrightarrow>
         total_data_size t \<ge> total_data_limit (config t)
         \<or> (scast (next_record t) :: size_t) \<ge> writes_before_lock (config t)
         \<or> data_size t \<ge> data_limit (config t)
         \<or> Op_lock \<in> set ops)) \<and>
   (locked t' \<longrightarrow> table_insert t' k v draw malloc_ok = Some (Inr (None, t')))"
proof (intro conjI impI)
  assume "table_run (skiptable_new opts) ops = Some (Inr t)"
  from table_run_is_locked [OF this] have "is_locked t \<longleftrightarrow> Op_lock \<in> set ops"
    by (simp add: skiptable_new_def)
  then show "locked t \<longleftrightarrow>
         total_data_size t \<ge> total_data_limit (config t)
         \<or> (scast (next_record t) :: size_t) \<ge> writes_before_lock (config t)
         \<or> data_size t \<ge> data_limit (config t)
         \<or> Op_lock \<in> set ops"
    by (simp add: locked_def)
next
  assume "locked t'"
  then show "table_insert t' k v draw malloc_ok = Some (Inr (None, t'))"
    by (simp add: table_insert_def)
qed

theorem locked_iff_and_insert_rejected_witness:
  "\<exists>t. table_run (skiptable_new demo_opts) [Op_insert [98] [1, 2] (level_draws 2) True, Op_lock] = Some (Inr t) \<and>
       locked t \<and> table_insert t [99] [3] (level_draws 0) True = Some (Inr (None, t))"
proof -
  let ?r = "table_run (skiptable_new demo_opts) [Op_insert [98] [1, 2] (level_draws 2) True, Op_lock]"
  have "returned ?r" by code_simp
  then obtain t where t: "?r = Some (Inr t)"
    by (cases ?r) (auto simp: returned_def split: sum.splits)
  from locked_iff_and_insert_rejected [of demo_opts
      "[Op_insert [98] [1, 2] (level_draws 2) True, Op_lock]" t t "[99]" "[3]" "level_draws 0" True] t
  have "locked t" and "table_insert t [99] [3] (level_draws 0) True = Some (Inr (None, t))"
    by simp_all
  with t show ?thesis by blast
qed

section \<open>Evaluations and proofs: SSTable, write-ahead log, store\<close>

lemma unat_padding_bytes: "unat (padding_bytes n) = 8 - unat n mod 8"
proof -
  have m: "unat (n mod 8) = unat n mod 8" by (simp add: unat_mod_distrib)
  have "unat n mod 8 < 8" by simp
  with m have "n mod 8 \<le> 8" by (simp add: word_le_nat_alt)
  then have "unat (8 - n mod 8) = unat (8 :: size_t) - unat (n mod 8)" by (rule unat_sub)
  with m show ?thesis by (simp add: padding_bytes_def)
qed

text \<open>Claim C6 fails on the code. \<open>padding_bytes(n)\<close> is \<open>8 - n mod 8\<close>, between 1 and 8 and
  never 0: for \<open>n = 0\<close> and \<open>n = 8\<close> it is 8, where the claim says 0. \<open>build\<close> writes these
  bytes: the entry of an 8-byte key with an 8-byte value is the 16-byte header, the key,
  8 zero bytes, the value and 8 more zero bytes.\<close>

theorem padding_is_eight_when_aligned:
  "padding_bytes 8 = 8 \<and> padding_bytes 0 = 8 \<and>
   (\<forall>n. unat (padding_bytes n) = 8 - unat n mod 8 \<and> 1 \<le> unat (padding_bytes n) \<and> unat (padding_bytes n) \<le> 8) \<and>
   take 48 (file_of (build \<lparr>max_block_size = 128\<rparr>
      (table_after demo_opts
         [Op_insert [97, 98, 99, 100, 101, 102, 103, 104] [1, 2, 3, 4, 5, 6, 7, 8] (level_draws 0) True,
          Op_lock])))
     = header_bytes \<lparr>prefix_bytes = 0, suffix_bytes = 8, value_bytes = 8\<rparr>
       @ [97, 98, 99, 100, 101, 102, 103, 104] @ replicate 8 0
       @ [1, 2, 3, 4, 5, 6, 7, 8] @ replicate 8 0"
proof -
  have a: "padding_bytes 8 = 8" and b: "padding_bytes 0 = 8"
    by (simp_all add: padding_bytes_def)
  have c: "unat (padding_bytes n) = 8 - unat n mod 8 \<and> 1 \<le> unat (padding_bytes n) \<and>
           unat (padding_bytes n) \<le> 8" for n
  proof -
    have "unat n mod 8 < 8" by simp
    then show ?thesis unfolding unat_padding_bytes by linarith
  qed
  have d: "take 48 (file_of (build \<lparr>max_block_size = 128\<rparr>
      (table_after demo_opts
         [Op_insert [97, 98, 99, 100, 101, 102, 103, 104] [1, 2, 3, 4, 5, 6, 7, 8] (level_draws 0) True,
          Op_lock])))
     = header_bytes \<lparr>prefix_bytes = 0, suffix_bytes = 8, value_bytes = 8\<rparr>
       @ [97, 98, 99, 100, 101, 102, 103, 104] @ replicate 8 0
       @ [1, 2, 3, 4, 5, 6, 7, 8] @ replicate 8 0"
    by code_simp
  from a b c d show ?thesis by blast
qed

text \<open>Claim C3 fails on the code. The locked memtable holds the key \<open>a\<close> (byte 97) with
  value 1 and the key \<open>ab\<close> with value 2. In the file built from it, \<open>sstable::get\<close> with
  the key \<open>ab\<close> returns true with the value 1: the comparison
  \<open>key.substr(hdr->prefix_bytes, hdr->suffix_bytes) == suffix\<close> accepts the entry \<open>a\<close>, a
  proper prefix of the key, which comes first in the file.\<close>

theorem sstable_get_returns_value_of_prefix_key:
  "returned (table_run (skiptable_new demo_opts)
      [Op_insert [97] [1] (level_draws 0) True, Op_insert [97, 98] [2] (level_draws 1) True, Op_lock]) \<and>
   locked (table_after demo_opts
      [Op_insert [97] [1] (level_draws 0) True, Op_insert [97, 98] [2] (level_draws 1) True, Op_lock]) \<and>
   get_key (table_after demo_opts
      [Op_insert [97] [1] (level_draws 0) True, Op_insert [97, 98] [2] (level_draws 1) True, Op_lock])
      [97, 98] = Some (Some \<lparr>rdata = Some [2], rsize = 1\<rparr>) \<and>
   returned (build \<lparr>max_block_size = 128\<rparr> (table_after demo_opts
      [Op_insert [97] [1] (level_draws 0) True, Op_insert [97, 98] [2] (level_draws 1) True, Op_lock])) \<and>
   sst_get (file_of (build \<lparr>max_block_size = 128\<rparr> (table_after demo_opts
      [Op_insert [97] [1] (level_draws 0) True, Op_insert [97, 98] [2] (level_draws 1) True, Op_lock])))
      [97, 98] = Some (Inr (Some [1]))"
  by code_simp

text \<open>Claim C9 fails on the code. The locked memtable holds the single key \<open>b\<close> (byte 98).
  For the key \<open>a\<close>, smaller than every key of the file, the block search leaves its loop
  at once with \<open>block = 0\<close>; \<open>block -= 1\<close> wraps to \<open>2^64 - 1\<close>, which is not below
  \<open>block_count = 1\<close>, and the next read, of \<open>idx_count\<close>, is 8 bytes before the start of the
  file.\<close>

theorem sstable_get_small_key_reads_outside_file:
  "returned (build \<lparr>max_block_size = 128\<rparr>
      (table_after demo_opts [Op_insert [98] [1] (level_draws 0) True, Op_lock])) \<and>
   map_sum id ftr_block_count (read_footer
      (file_of (build \<lparr>max_block_size = 128\<rparr>
         (table_after demo_opts [Op_insert [98] [1] (level_draws 0) True, Op_lock]))) 128) = Inr 1 \<and>
   map_sum id (\<lambda>ftr. find_block
      (file_of (build \<lparr>max_block_size = 128\<rparr>
         (table_after demo_opts [Op_insert [98] [1] (level_draws 0) True, Op_lock]))) ftr [97] [0..<1])
     (read_footer
      (file_of (build \<lparr>max_block_size = 128\<rparr>
         (table_after demo_opts [Op_insert [98] [1] (level_draws 0) True, Op_lock]))) 128) = Inr (Inr 0) \<and>
   \<not> (0 - 1 :: size_t) < 1 \<and>
   read_u64 (file_of (build \<lparr>max_block_size = 128\<rparr>
         (table_after demo_opts [Op_insert [98] [1] (level_draws 0) True, Op_lock])))
      ((0 - 1) * 128 + 128 - 8) = Inl Out_of_bounds \<and>
   sst_get (file_of (build \<lparr>max_block_size = 128\<rparr>
         (table_after demo_opts [Op_insert [98] [1] (level_draws 0) True, Op_lock]))) [97]
     = Some (Inl Out_of_bounds)"
  by code_simp

text \<open>Claim C2 fails on the code. The log of the single insert of key \<open>ab\<close> with value \<open>cd\<close>
  is the five bytes \<open>ab\<close>, newline, \<open>cd\<close>. \<open>load\<close> reads the pair back with \<open>getline\<close>, which
  has already removed the newline, and then cuts the last byte off the key and off the
  value: the loaded memtable holds the key \<open>a\<close> with value \<open>c\<close> and does not hold \<open>ab\<close>.
  The log of two inserts makes \<open>load\<close> fail its \<open>assert(file.good())\<close>, because \<open>log\<close>
  writes no newline after a value.\<close>

theorem wal_load_loses_logged_key:
  "wal_of (logged_inserts (skiptable_new demo_opts) (walfile_new 256)
      [([97, 98], [99, 100], level_draws 0, True)]) = [97, 98, 10, 99, 100] \<and>
   returned (load [97, 98, 10, 99, 100] (skiptable_new demo_opts) (level_draws 0) True) \<and>
   get_key (loaded (load [97, 98, 10, 99, 100] (skiptable_new demo_opts) (level_draws 0) True))
      [97, 98] = Some None \<and>
   get_key (loaded (load [97, 98, 10, 99, 100] (skiptable_new demo_opts) (level_draws 0) True))
      [97] = Some (Some \<lparr>rdata = Some [99], rsize = 1\<rparr>) \<and>
   wal_of (logged_inserts (skiptable_new demo_opts) (walfile_new 256)
      [([97, 98], [99, 100], level_draws 0, True), ([101], [102], level_draws 0, True)])
     = [97, 98, 10, 99, 100, 101, 10, 102] \<and>
   load [97, 98, 10, 99, 100, 101, 10, 102] (skiptable_new demo_opts) (level_draws 0) True
     = Some (Inl Assertion_failed)"
  by code_simp

text \<open>Claim C1 fails on the code. With a memtable that seals after one write, four puts
  of the key \<open>k\<close> (byte 107) with the values 1, 2, 3, 4 (bytes 49 to 52) leave three
  sealed memtables in the history; \<open>get\<close> returns 4. The next wake-up of the background
  thread flushes the four memtables from the newest to the oldest, so the file of the
  oldest memtable gets the latest time stamp and is searched first: \<open>get\<close> now returns
  the value 1 of the first put.\<close>

theorem get_after_flush_returns_oldest_value:
  "returned (kv_run (kvstore_new small_options)
      [Put [107] [49] (level_draws 0) True, Put [107] [50] (level_draws 0) True,
       Put [107] [51] (level_draws 0) True, Put [107] [52] (level_draws 0) True]) \<and>
   get (store_after small_options
      [Put [107] [49] (level_draws 0) True, Put [107] [50] (level_draws 0) True,
       Put [107] [51] (level_draws 0) True, Put [107] [52] (level_draws 0) True]) [107]
     = Some (Inr (Some [52])) \<and>
   returned (kv_run (kvstore_new small_options)
      [Put [107] [49] (level_draws 0) True, Put [107] [50] (level_draws 0) True,
       Put [107] [51] (level_draws 0) True, Put [107] [52] (level_draws 0) True, Background]) \<and>
   get (store_after small_options
      [Put [107] [49] (level_draws 0) True, Put [107] [50] (level_draws 0) True,
       Put [107] [51] (level_draws 0) True, Put [107] [52] (level_draws 0) True, Background]) [107]
     = Some (Inr (Some [49]))"
  by code_simp

lemma put_returns_not_stuck:
  assumes ret: "put s k v draw malloc_ok = Some y"
  shows "\<not> (locked (mtable s) \<and> table_empty (mtable s))"
proof (rule put.raw_induct
    [where P = "\<lambda>s k v draw malloc_ok y. \<not> (locked (mtable s) \<and> table_empty (mtable s))", OF _ ret])
  fix f s k v draw malloc_ok and y :: "error + kvstore"
  assume IH: "\<And>s k v draw malloc_ok y. f s k v draw malloc_ok = Some y \<Longrightarrow>
                \<not> (locked (mtable s) \<and> table_empty (mtable s))"
    and body: "(case table_insert (mtable s) k v draw malloc_ok of
                  None \<Rightarrow> None
                | Some (Inl e) \<Rightarrow> Some (Inl e)
                | Some (Inr (None, t')) \<Rightarrow> f (save_memtable (s\<lparr>mtable := t'\<rparr>)) k v draw malloc_ok
                | Some (Inr (Some n, t')) \<Rightarrow>
                    (case log (wal s) t' n of
                       None \<Rightarrow> None
                     | Some (Inl e) \<Rightarrow> Some (Inl e)
                     | Some (Inr w') \<Rightarrow> Some (Inr (s\<lparr>mtable := t', wal := w'\<rparr>)))) = Some y"
  show "\<not> (locked (mtable s) \<and> table_empty (mtable s))"
  proof
    assume stuck: "locked (mtable s) \<and> table_empty (mtable s)"
    then have i: "table_insert (mtable s) k v draw malloc_ok = Some (Inr (None, mtable s))"
      by (simp add: table_insert_def)
    from stuck have "save_memtable (s\<lparr>mtable := mtable s\<rparr>) = s"
      by (simp add: save_memtable_def)
    with body i have "f s k v draw malloc_ok = Some y" by simp
    from IH [OF this] stuck show False by simp
  qed
qed

lemma put_stuck: "locked (mtable s) \<Longrightarrow> table_empty (mtable s) \<Longrightarrow> put s k v draw malloc_ok = None"
  using put_returns_not_stuck [of s k v draw malloc_ok] by (cases "put s k v draw malloc_ok") auto

text \<open>Claim C8 fails on the code. In a store whose memtable seals after one write, the put
  of key \<open>a\<close> with a zero-length value returns and \<open>get\<close> yields the zero-length value;
  the next put, of key \<open>b\<close> with a zero-length value, never returns: the memtable is
  locked, \<open>insert\<close> fails, and \<open>save_memtable\<close> does nothing because \<open>empty()\<close> tests
  \<open>data_size == 0\<close>, which zero-length values leave true.\<close>

theorem put_zero_length_value_never_returns:
  "returned (kv_run (kvstore_new small_options) [Put [97] [] (level_draws 0) True]) \<and>
   get (store_after small_options [Put [97] [] (level_draws 0) True]) [97] = Some (Inr (Some [])) \<and>
   put (store_after small_options [Put [97] [] (level_draws 0) True]) [98] [] draw True = None"
proof -
  let ?s = "store_after small_options [Put [97] [] (level_draws 0) True]"
  have a: "returned (kv_run (kvstore_new small_options) [Put [97] [] (level_draws 0) True])"
    by code_simp
  have b: "get ?s [97] = Some (Inr (Some []))" by code_simp
  have "locked (mtable ?s)" and "table_empty (mtable ?s)" by code_simp+
  then have "put ?s [98] [] draw True = None" by (rule put_stuck)
  with a b show ?thesis by simp
qed

end
